theory Spec2Isabelle
  imports Complex_Main "HOL-Library.Word"
begin

section \<open>The generator core of rapidcheck (include/rapidcheck/gen/Generator.hpp)\<close>

text \<open>
  A shallow embedding of the generator combinators of \<^verbatim>\<open>Generator.hpp\<close>.

  \<^item> A C++ exception is a value of type \<open>error\<close>; a draw returns \<open>error + 'a\<close>.
  \<^item> The implicit parameters of \<^verbatim>\<open>detail/GenerationParams.h\<close> (\<^verbatim>\<open>param::Size\<close>,
    \<^verbatim>\<open>param::NoShrink\<close>, \<^verbatim>\<open>param::RandomEngine\<close>, \<^verbatim>\<open>param::CurrentNode\<close>) are the fields of a
    record that every \<^verbatim>\<open>generate()\<close> receives. \<^verbatim>\<open>let(v)\<close> binds a parameter for the rest of
    the C++ scope, which is a record update handed to the calls made inside that scope.
  \<^item> The random engine and the current rose node are reached through pointers, so what a
    draw does to them outlives the draw, also when the draw throws: \<^verbatim>\<open>generate()\<close> returns
    the engine and the node with its result, and the next draw of the caller runs on them.
    The node is \<open>None\<close> when the pointer is null.
  \<^item> A shrink iterator (\<^verbatim>\<open>shrink::IteratorUP<T>\<close>) is a finite sequence of candidates,
    the list of the values it yields in order.
  \<^item> Sizes are C++ \<^verbatim>\<open>int\<close>, numbers from \<open>- 2 ^ 31\<close> to \<open>2 ^ 31 - 1\<close>. Where the header
    computes with them the result is taken back into that range by \<open>int_wrap\<close>: signed
    overflow is undefined in C++, and two's complement wrap-around is what the compiled code
    does.
\<close>

subsection \<open>Errors, implicit parameters, generators\<close>

datatype error =
    GenerationFailure string
  | OtherException string

definition int_wrap :: "int \<Rightarrow> int" where
  "int_wrap x = (x + 2 ^ 31) mod 2 ^ 32 - 2 ^ 31"

record ('r, 'n) GenerationParams =
  param_Size :: int
  param_NoShrink :: bool
  param_RandomEngine :: 'r
  param_CurrentNode :: "'n option"

type_synonym ('r, 'n, 'a) draw = "(error + 'a) \<times> 'r \<times> 'n option"

record ('r, 'n, 'a) Generator =
  generate :: "('r, 'n) GenerationParams \<Rightarrow> ('r, 'n, 'a) draw"
  shrink :: "'a \<Rightarrow> 'a list"

text \<open>
  The engine and the node of a context, and the context in which the next draw of a caller
  runs: the bindings of the caller with the engine and the node as the draw before has left
  them.
\<close>

definition pointees :: "('r, 'n) GenerationParams \<Rightarrow> 'r \<times> 'n option" where
  "pointees p = (param_RandomEngine p, param_CurrentNode p)"

definition with_pointees ::
  "('r, 'n) GenerationParams \<Rightarrow> 'r \<times> 'n option \<Rightarrow> ('r, 'n) GenerationParams" where
  "with_pointees p st = p\<lparr>param_RandomEngine := fst st, param_CurrentNode := snd st\<rparr>"

text \<open>
  \<^verbatim>\<open>detail::pick\<close>. When \<^verbatim>\<open>param::CurrentNode\<close> is not null the generator is handed to
  \<^verbatim>\<open>RoseNode::pick\<close> of \<^verbatim>\<open>detail/RoseNode.h\<close>, which is not part of the header: it is the
  parameter \<open>RoseNode_pick\<close>, a function of the node, the generator and the context. When
  the pointer is null, as in top-level sampling, the generator is run in the current
  context.
\<close>

type_synonym ('r, 'n, 'a) RoseNode_pick =
  "'n \<Rightarrow> ('r, 'n, 'a) Generator \<Rightarrow> ('r, 'n) GenerationParams \<Rightarrow> ('r, 'n, 'a) draw"

definition pick ::
  "('r, 'n, 'a) RoseNode_pick \<Rightarrow> ('r, 'n, 'a) Generator \<Rightarrow> ('r, 'n) GenerationParams
     \<Rightarrow> ('r, 'n, 'a) draw" where
  "pick RoseNode_pick generator p =
     (case param_CurrentNode p of
        Some currentNode \<Rightarrow> RoseNode_pick currentNode generator p
      | None \<Rightarrow> generate generator p)"

subsection \<open>Shrink iterators\<close>

text \<open>
  Modelled from the spec: the iterator combinators of namespace \<^verbatim>\<open>shrink\<close>, which the header
  only calls. \<^verbatim>\<open>nothing\<close> is the empty sequence, \<^verbatim>\<open>constant(xs)\<close> yields xs in order,
  \<^verbatim>\<open>map(it, f)\<close> applies f to each element, \<^verbatim>\<open>sequentially(a, b)\<close> yields all of a, then all
  of b.
\<close>

definition shrink_nothing :: "'a list" where
  "shrink_nothing = []"

definition shrink_constant :: "'a list \<Rightarrow> 'a list" where
  "shrink_constant xs = xs"

definition shrink_map :: "'a list \<Rightarrow> ('a \<Rightarrow> 'b) \<Rightarrow> 'b list" where
  "shrink_map it f = map f it"

definition shrink_sequentially :: "'a list \<Rightarrow> 'a list \<Rightarrow> 'a list" where
  "shrink_sequentially a b = a @ b"

text \<open>
  Modelled from the spec: \<^verbatim>\<open>shrink::eachElement(xs, per)\<close>, "for i in 0..|xs|: for each y in
  per(xs[i]): yield xs with position i replaced by y; position i is exhausted before i+1".
  A container is the list of its elements in iteration order.
\<close>

definition shrink_eachElement :: "'a list \<Rightarrow> ('a \<Rightarrow> 'a list) \<Rightarrow> 'a list list" where
  "shrink_eachElement xs per =
     concat (map (\<lambda>i. map (\<lambda>y. xs[i := y]) (per (xs ! i))) [0..<length xs])"

subsection \<open>The base class\<close>

text \<open>\<^verbatim>\<open>Generator<T>::shrink\<close>, the default that a subclass inherits when it does not override.\<close>

definition Generator_shrink :: "'a \<Rightarrow> 'a list" where
  "Generator_shrink val = shrink_nothing"

subsection \<open>Resize, NoShrink, Constant\<close>

definition Resize_generate ::
  "int \<Rightarrow> ('r, 'n, 'a) Generator \<Rightarrow> ('r, 'n) GenerationParams \<Rightarrow> ('r, 'n, 'a) draw" where
  "Resize_generate m_size m_generator p = generate m_generator (p\<lparr>param_Size := m_size\<rparr>)"

definition Resize :: "int \<Rightarrow> ('r, 'n, 'a) Generator \<Rightarrow> ('r, 'n, 'a) Generator" where
  "Resize m_size m_generator =
     \<lparr>generate = Resize_generate m_size m_generator, shrink = shrink m_generator\<rparr>"

text \<open>\<^verbatim>\<open>NoShrink\<close> overrides \<^verbatim>\<open>generate\<close> only; its \<^verbatim>\<open>shrink\<close> is the inherited default.\<close>

definition NoShrink_generate ::
  "('r, 'n, 'a) Generator \<Rightarrow> ('r, 'n) GenerationParams \<Rightarrow> ('r, 'n, 'a) draw" where
  "NoShrink_generate m_generator p = generate m_generator (p\<lparr>param_NoShrink := True\<rparr>)"

definition NoShrink :: "('r, 'n, 'a) Generator \<Rightarrow> ('r, 'n, 'a) Generator" where
  "NoShrink m_generator =
     \<lparr>generate = NoShrink_generate m_generator, shrink = Generator_shrink\<rparr>"

definition Constant :: "'a \<Rightarrow> ('r, 'n, 'a) Generator" where
  "Constant m_value =
     \<lparr>generate = (\<lambda>p. (Inr m_value, pointees p)), shrink = Generator_shrink\<rparr>"

subsection \<open>SuchThat\<close>

text \<open>
  The loop of \<^verbatim>\<open>SuchThat::generate\<close>, with the engine and the node threaded through the
  draws. The draw is \<^verbatim>\<open>*noShrink(resize(size, m_generator))\<close>; an exception of the draw
  leaves the loop. \<^verbatim>\<open>size++\<close> and \<^verbatim>\<open>size - startSize\<close> are \<^verbatim>\<open>int\<close> arithmetic.
\<close>

definition gaveUp :: error where
  "gaveUp = GenerationFailure ''Gave up trying to generate value satisfying predicate''"

function SuchThat_loop ::
  "('r, 'n, 'a) RoseNode_pick \<Rightarrow> ('r, 'n, 'a) Generator \<Rightarrow> ('a \<Rightarrow> bool)
     \<Rightarrow> ('r, 'n) GenerationParams \<Rightarrow> int \<Rightarrow> int \<Rightarrow> 'r \<times> 'n option \<Rightarrow> ('r, 'n, 'a) draw" where
  "SuchThat_loop RoseNode_pick m_generator m_predicate p startSize sz st =
     (case pick RoseNode_pick (NoShrink (Resize sz m_generator)) (with_pointees p st) of
        (Inl e, st') \<Rightarrow> (Inl e, st')
      | (Inr x, st') \<Rightarrow>
          if m_predicate x then (Inr x, st')
          else if int_wrap (int_wrap (sz + 1) - startSize) > 100 then (Inl gaveUp, st')
          else SuchThat_loop RoseNode_pick m_generator m_predicate p startSize
                 (int_wrap (sz + 1)) st')"
  by pat_completeness auto

termination
proof (relation "measure (\<lambda>(np, g, pr, p, startSize, sz, st).
                   nat ((101 - int_wrap (sz - startSize)) mod 2 ^ 32))", goal_cases)
  case 1
  show ?case by simp
next
  case (2 np g pr p startSize sz st y x st')
  define d where "d = int_wrap (sz - startSize)"
  define d' where "d' = int_wrap (int_wrap (sz + 1) - startSize)"
  have cong: "int_wrap z mod 2 ^ 32 = z mod 2 ^ 32" for z
  proof -
    have "int_wrap z mod 2 ^ 32 = ((z + 2 ^ 31) mod 2 ^ 32 - 2 ^ 31) mod 2 ^ 32"
      by (simp add: int_wrap_def)
    also have "\<dots> = (z + 2 ^ 31 - 2 ^ 31) mod 2 ^ 32"
      by (rule mod_diff_left_eq)
    finally show ?thesis by simp
  qed
  have lower: "- (2 ^ 31) \<le> int_wrap z" for z
    by (simp add: int_wrap_def)
  have "d' mod 2 ^ 32 = (int_wrap (sz + 1) - startSize) mod 2 ^ 32"
    unfolding d'_def by (rule cong)
  also have "\<dots> = (int_wrap (sz + 1) mod 2 ^ 32 - startSize) mod 2 ^ 32"
    by (simp only: mod_diff_left_eq)
  also have "\<dots> = ((sz + 1) mod 2 ^ 32 - startSize) mod 2 ^ 32"
    by (simp only: cong)
  also have "\<dots> = (sz + 1 - startSize) mod 2 ^ 32"
    by (simp only: mod_diff_left_eq)
  also have "sz + 1 - startSize = sz - startSize + 1"
    by simp
  also have "(sz - startSize + 1) mod 2 ^ 32 = ((sz - startSize) mod 2 ^ 32 + 1) mod 2 ^ 32"
    by (simp only: mod_add_left_eq)
  also have "\<dots> = (d mod 2 ^ 32 + 1) mod 2 ^ 32"
    by (simp only: d_def cong)
  also have "\<dots> = (d + 1) mod 2 ^ 32"
    by (simp only: mod_add_left_eq)
  finally have step: "d' mod 2 ^ 32 = (d + 1) mod 2 ^ 32" .
  have "101 - d = 102 - (d + 1)"
    by simp
  then have "(101 - d) mod 2 ^ 32 = (102 - (d + 1)) mod 2 ^ 32"
    by (rule arg_cong)
  also have "\<dots> = (102 - (d + 1) mod 2 ^ 32) mod 2 ^ 32"
    by (simp only: mod_diff_right_eq)
  also have "\<dots> = (102 - d' mod 2 ^ 32) mod 2 ^ 32"
    by (simp only: step)
  also have "\<dots> = (102 - d') mod 2 ^ 32"
    by (simp only: mod_diff_right_eq)
  finally have old: "(101 - d) mod 2 ^ 32 = (102 - d') mod 2 ^ 32" .
  from 2 have "d' \<le> 100"
    by (simp add: d'_def)
  moreover have "- (2 ^ 31) \<le> d'"
    unfolding d'_def by (rule lower)
  ultimately have "(102 - d') mod 2 ^ 32 = 102 - d'" and "(101 - d') mod 2 ^ 32 = 101 - d'"
    by simp_all
  with old have "(101 - d') mod 2 ^ 32 < (101 - d) mod 2 ^ 32" and "0 < (101 - d) mod 2 ^ 32"
    using \<open>d' \<le> 100\<close> by simp_all
  then show ?case
    by (simp add: d_def d'_def)
qed

declare SuchThat_loop.simps [simp del]

definition SuchThat_generate ::
  "('r, 'n, 'a) RoseNode_pick \<Rightarrow> ('r, 'n, 'a) Generator \<Rightarrow> ('a \<Rightarrow> bool)
     \<Rightarrow> ('r, 'n) GenerationParams \<Rightarrow> ('r, 'n, 'a) draw" where
  "SuchThat_generate RoseNode_pick m_generator m_predicate p =
     SuchThat_loop RoseNode_pick m_generator m_predicate p (param_Size p) (param_Size p)
       (pointees p)"

definition SuchThat ::
  "('r, 'n, 'a) RoseNode_pick \<Rightarrow> ('r, 'n, 'a) Generator \<Rightarrow> ('a \<Rightarrow> bool)
     \<Rightarrow> ('r, 'n, 'a) Generator" where
  "SuchThat RoseNode_pick m_generator m_predicate =
     \<lparr>generate = SuchThat_generate RoseNode_pick m_generator m_predicate,
      shrink = Generator_shrink\<rparr>"

text \<open>
  The draws of the loop, written out one by one for the statement of what the loop does.
  Attempt k (counted from 0) is the pick of \<^verbatim>\<open>noShrink(resize(size, m_generator))\<close> at the
  size of the caller plus k, on the engine and the node that the attempts before it have
  left.
\<close>

fun SuchThat_pointees ::
  "('r, 'n, 'a) RoseNode_pick \<Rightarrow> ('r, 'n, 'a) Generator \<Rightarrow> ('r, 'n) GenerationParams \<Rightarrow> nat
     \<Rightarrow> 'r \<times> 'n option" where
  "SuchThat_pointees np g p 0 = pointees p"
| "SuchThat_pointees np g p (Suc k) =
     snd (pick np (NoShrink (Resize (param_Size p + int k) g))
            (with_pointees p (SuchThat_pointees np g p k)))"

definition SuchThat_attempt ::
  "('r, 'n, 'a) RoseNode_pick \<Rightarrow> ('r, 'n, 'a) Generator \<Rightarrow> ('r, 'n) GenerationParams \<Rightarrow> nat
     \<Rightarrow> ('r, 'n, 'a) draw" where
  "SuchThat_attempt np g p k =
     pick np (NoShrink (Resize (param_Size p + int k) g))
       (with_pointees p (SuchThat_pointees np g p k))"

subsection \<open>Generators and contexts for concrete runs\<close>

text \<open>
  \<open>drawCounter\<close> returns the current size and counts the draws made in the engine, which
  is a natural number here. \<open>params0\<close> is a context of size 0 with a fresh counter and no
  current node, and \<open>no_RoseNode\<close> stands for \<^verbatim>\<open>RoseNode::pick\<close> where no node is ever
  current.
\<close>

definition drawCounter :: "(nat, unit, int) Generator" where
  "drawCounter =
     \<lparr>generate = (\<lambda>p. (Inr (param_Size p), Suc (param_RandomEngine p), param_CurrentNode p)),
      shrink = Generator_shrink\<rparr>"

definition params0 :: "(nat, unit) GenerationParams" where
  "params0 = \<lparr>param_Size = 0, param_NoShrink = False, param_RandomEngine = 0,
               param_CurrentNode = None\<rparr>"

definition no_RoseNode :: "(nat, unit, 'a) RoseNode_pick" where
  "no_RoseNode currentNode generator p = generate generator p"

subsection \<open>Ranged\<close>

text \<open>
  \<^verbatim>\<open>Ranged<T>\<close> for an integral type T of \<open>LENGTH('a)\<close> bits; \<open>is_signed\<close> is
  \<^verbatim>\<open>std::is_signed<T>\<close>. A T object is the word of its bits and \<open>T_value\<close> is the number
  it stands for, which is what \<^verbatim>\<open><\<close> compares and what \<^verbatim>\<open>std::to_string\<close> prints. The
  unsigned type \<^verbatim>\<open>Uint\<close> has the same width. In \<^verbatim>\<open>m_min + value % (m_max - m_min)\<close> the
  difference is converted to unsigned for the remainder and the sum is converted back to T:
  arithmetic of words of that width (for a type narrower than \<^verbatim>\<open>int\<close> the operands are
  promoted, the difference and the sum are exact and the conversion of the result to T
  takes it modulo 2 to the width, with the same outcome; where the signed difference of an
  \<^verbatim>\<open>int\<close> or wider type overflows the model takes the two's complement result).

  The header does not define \<^verbatim>\<open>kNominalSize\<close> and \<^verbatim>\<open>arbitrary<Uint>()\<close> (Arbitrary.hpp):
  they are parameters.
\<close>

definition T_value :: "bool \<Rightarrow> 'a::len word \<Rightarrow> int" where
  "T_value is_signed x = (if is_signed then sint x else uint x)"

fun to_string_nat :: "nat \<Rightarrow> string" where
  "to_string_nat n =
     (if n < 10 then [''0123456789'' ! n]
      else to_string_nat (n div 10) @ [''0123456789'' ! (n mod 10)])"

declare to_string_nat.simps [simp del]

definition to_string :: "int \<Rightarrow> string" where
  "to_string i = (if i < 0 then CHR ''-'' # to_string_nat (nat (- i)) else to_string_nat (nat i))"

definition Ranged_generate ::
  "('r, 'n, 'a word) RoseNode_pick \<Rightarrow> bool \<Rightarrow> int \<Rightarrow> ('r, 'n, 'a word) Generator
     \<Rightarrow> 'a::len word \<Rightarrow> 'a word \<Rightarrow> ('r, 'n) GenerationParams \<Rightarrow> ('r, 'n, 'a word) draw" where
  "Ranged_generate RoseNode_pick is_signed kNominalSize arbitrary_Uint m_min m_max p =
     (if T_value is_signed m_max < T_value is_signed m_min then
        (Inl (GenerationFailure
           (''Invalid range ['' @ to_string (T_value is_signed m_min) @
            '', '' @ to_string (T_value is_signed m_max) @ '')'')),
         pointees p)
      else if m_max = m_min then (Inr m_max, pointees p)
      else
        (case pick RoseNode_pick (NoShrink (Resize kNominalSize arbitrary_Uint)) p of
           (Inl e, st') \<Rightarrow> (Inl e, st')
         | (Inr val, st') \<Rightarrow> (Inr (m_min + val mod (m_max - m_min)), st')))"

definition Ranged ::
  "('r, 'n, 'a word) RoseNode_pick \<Rightarrow> bool \<Rightarrow> int \<Rightarrow> ('r, 'n, 'a word) Generator
     \<Rightarrow> 'a::len word \<Rightarrow> 'a word \<Rightarrow> ('r, 'n, 'a word) Generator" where
  "Ranged RoseNode_pick is_signed kNominalSize arbitrary_Uint m_min m_max =
     \<lparr>generate = Ranged_generate RoseNode_pick is_signed kNominalSize arbitrary_Uint m_min m_max,
      shrink = Generator_shrink\<rparr>"

text \<open>
  \<open>engineWord\<close> stands in for \<^verbatim>\<open>arbitrary<Uint>()\<close> in concrete runs: the engine is a
  counter, a draw returns its value as a word and advances it.
\<close>

definition engineWord :: "(nat, unit, 'a::len word) Generator" where
  "engineWord =
     \<lparr>generate = (\<lambda>p. (Inr (of_nat (param_RandomEngine p)), Suc (param_RandomEngine p),
                       param_CurrentNode p)),
      shrink = Generator_shrink\<rparr>"

subsection \<open>Scale\<close>

text \<open>
  \<^verbatim>\<open>Scale::generate\<close> binds the size to \<^verbatim>\<open>*size * m_scale\<close>: the \<^verbatim>\<open>int\<close> is converted to
  \<^verbatim>\<open>double\<close>, the product is a \<^verbatim>\<open>double\<close>, and the implicit conversion to \<^verbatim>\<open>int\<close>
  discards its fractional part.

  A \<^verbatim>\<open>double\<close> is an IEEE 754 binary64 number: \<open>Finite m e\<close> is the number m times 2 to
  the e, \<open>Infinity neg\<close> an infinity (negative when \<open>neg\<close>) and \<open>NaN\<close> a NaN. The sign
  of a zero is not kept: either zero converts to the \<^verbatim>\<open>int\<close> 0. An arithmetic result is
  the exact result rounded to the nearest number with a significand of 53 bits and an
  exponent of at least -1074, a tie to the even significand, and to an infinity from 2 to
  the 1024 on.
\<close>

datatype double = Finite int int | Infinity bool | NaN

function bit_length :: "int \<Rightarrow> int" where
  "bit_length n = (if n \<le> 0 then 0 else 1 + bit_length (n div 2))"
  by pat_completeness auto
termination
  by (relation "measure nat") auto

declare bit_length.simps [simp del]

definition round_half_even :: "int \<Rightarrow> nat \<Rightarrow> int" where
  "round_half_even n s =
     (let q = n div 2 ^ s; r = n mod 2 ^ s
      in if 2 * r < 2 ^ s then q
         else if 2 * r > 2 ^ s then q + 1
         else if even q then q else q + 1)"

definition round_double :: "int \<Rightarrow> int \<Rightarrow> double" where
  "round_double n e =
     (if n = 0 then Finite 0 0
      else
        let q = max (bit_length \<bar>n\<bar> + e - 53) (- 1074);
            m = (if q \<le> e then n * 2 ^ nat (e - q) else round_half_even n (nat (q - e)))
        in if bit_length \<bar>m\<bar> + q > 1024 then Infinity (n < 0)
           else Finite m q)"

definition int_to_double :: "int \<Rightarrow> double" where
  "int_to_double i = Finite i 0"

fun double_mult :: "double \<Rightarrow> double \<Rightarrow> double" where
  "double_mult (Finite m1 e1) (Finite m2 e2) = round_double (m1 * m2) (e1 + e2)"
| "double_mult (Finite m e) (Infinity neg) =
     (if m = 0 then NaN else Infinity (neg \<noteq> (m < 0)))"
| "double_mult (Infinity neg) (Finite m e) =
     (if m = 0 then NaN else Infinity (neg \<noteq> (m < 0)))"
| "double_mult (Infinity neg1) (Infinity neg2) = Infinity (neg1 \<noteq> neg2)"
| "double_mult NaN y = NaN"
| "double_mult x NaN = NaN"

text \<open>
  The conversion of a \<^verbatim>\<open>double\<close> to \<^verbatim>\<open>int\<close> truncates toward zero. It is undefined in
  C++ when the truncated value is not an \<^verbatim>\<open>int\<close> (and for an infinity or a NaN); the
  conversion instruction of x86-64 then yields \<open>- 2 ^ 31\<close>, which is what the model
  returns.
\<close>

definition double_truncate :: "int \<Rightarrow> int \<Rightarrow> int" where
  "double_truncate m e =
     (if 0 \<le> e then m * 2 ^ nat e else sgn m * (\<bar>m\<bar> div 2 ^ nat (- e)))"

definition double_to_int :: "double \<Rightarrow> int" where
  "double_to_int x =
     (case x of
        Finite m e \<Rightarrow>
          (let t = double_truncate m e
           in if - (2 ^ 31) \<le> t \<and> t < 2 ^ 31 then t else - (2 ^ 31))
      | Infinity neg \<Rightarrow> - (2 ^ 31)
      | NaN \<Rightarrow> - (2 ^ 31))"

text \<open>The rational number that a finite \<^verbatim>\<open>double\<close> stands for.\<close>

definition double_value :: "int \<Rightarrow> int \<Rightarrow> rat" where
  "double_value m e = (if 0 \<le> e then of_int m * 2 ^ nat e else of_int m / 2 ^ nat (- e))"

definition Scale_generate ::
  "double \<Rightarrow> ('r, 'n, 'a) Generator \<Rightarrow> ('r, 'n) GenerationParams \<Rightarrow> ('r, 'n, 'a) draw" where
  "Scale_generate m_scale m_generator p =
     generate m_generator
       (p\<lparr>param_Size := double_to_int (double_mult (int_to_double (param_Size p)) m_scale)\<rparr>)"

definition Scale :: "double \<Rightarrow> ('r, 'n, 'a) Generator \<Rightarrow> ('r, 'n, 'a) Generator" where
  "Scale m_scale m_generator =
     \<lparr>generate = Scale_generate m_scale m_generator, shrink = shrink m_generator\<rparr>"

subsection \<open>Character\<close>

text \<open>
  \<^verbatim>\<open>Character<T>::shrink\<close> for T = \<^verbatim>\<open>char\<close>. The body of the \<^verbatim>\<open>switch\<close> is the list of its
  labelled statements in source order: the label (\<open>None\<close> is \<^verbatim>\<open>default\<close>) and the
  character that the statement inserts at the front of \<^verbatim>\<open>chars\<close> (\<open>None\<close> for the empty
  statement after \<^verbatim>\<open>case 'a'\<close>). There is no \<^verbatim>\<open>break\<close>: control enters at the label that
  equals the value, or at \<^verbatim>\<open>default\<close> when no case label does, and runs every statement
  from there to the end.
\<close>

definition Character_switch :: "(char option \<times> char option) list" where
  "Character_switch =
     [(None, Some CHR ''3''),
      (Some CHR ''3'', Some CHR ''2''),
      (Some CHR ''2'', Some CHR ''1''),
      (Some CHR ''1'', Some CHR ''C''),
      (Some CHR ''C'', Some CHR ''B''),
      (Some CHR ''B'', Some CHR ''A''),
      (Some CHR ''A'', Some CHR ''c''),
      (Some CHR ''c'', Some CHR ''b''),
      (Some CHR ''b'', Some CHR ''a''),
      (Some CHR ''a'', None)]"

definition switch_entry ::
  "char \<Rightarrow> (char option \<times> char option) list \<Rightarrow> (char option \<times> char option) list" where
  "switch_entry v body =
     (if Some v \<in> set (map fst body) then dropWhile (\<lambda>(l, s). l \<noteq> Some v) body
      else dropWhile (\<lambda>(l, s). l \<noteq> None) body)"

fun switch_run :: "(char option \<times> char option) list \<Rightarrow> char list \<Rightarrow> char list" where
  "switch_run [] chars = chars"
| "switch_run ((l, Some c) # rest) chars = switch_run rest (c # chars)"
| "switch_run ((l, None) # rest) chars = switch_run rest chars"

definition Character_shrink :: "char \<Rightarrow> char list" where
  "Character_shrink v = shrink_constant (switch_run (switch_entry v Character_switch) [])"

text \<open>
  The canonical list of the specification and the order it induces: a character is smaller
  than another when it comes earlier in the list; a character that is not in the list comes
  after all that are.
\<close>

definition canonical :: "char list" where
  "canonical = ''abcABC123''"

definition canonical_index :: "char \<Rightarrow> nat" where
  "canonical_index c = length (takeWhile (\<lambda>d. d \<noteq> c) canonical)"

subsection \<open>Vector and Collection\<close>

text \<open>
  A container is the list of its elements in iteration order. What the header takes from
  elsewhere is a parameter: \<open>IsCopyConstructible\<close> is the compile-time trait
  \<^verbatim>\<open>detail::IsCopyConstructible<Container>\<close> that selects the overload of \<^verbatim>\<open>shrink\<close>;
  \<open>removeChunks\<close> is \<^verbatim>\<open>shrink::removeChunks\<close>, which the specification constrains without
  defining it; \<open>add\<close> is \<^verbatim>\<open>CollectionBuilder<Container>::add\<close>, which returns whether the
  element was taken together with the collection built so far, starting from the empty one.
\<close>

definition Vector_shrink ::
  "bool \<Rightarrow> ('r, 'n, 'a) Generator \<Rightarrow> 'a list \<Rightarrow> 'a list list" where
  "Vector_shrink IsCopyConstructible m_generator val =
     (if IsCopyConstructible then
        shrink_eachElement val (\<lambda>element. shrink m_generator element)
      else shrink_nothing)"

type_synonym SizeT = "64 word"

text \<open>
  The loop of \<^verbatim>\<open>Collection::generate\<close>, \<open>n\<close> iterations left: each draws
  \<^verbatim>\<open>*noShrink(m_generator)\<close> and hands the element to the builder, whose verdict is ignored.
\<close>

fun Collection_loop ::
  "('r, 'n, 'a) RoseNode_pick \<Rightarrow> ('a list \<Rightarrow> 'a \<Rightarrow> bool \<times> 'a list) \<Rightarrow> ('r, 'n, 'a) Generator
     \<Rightarrow> ('r, 'n) GenerationParams \<Rightarrow> nat \<Rightarrow> 'r \<times> 'n option \<Rightarrow> 'a list
     \<Rightarrow> ('r, 'n, 'a list) draw" where
  "Collection_loop RoseNode_pick add m_generator p 0 st collection = (Inr collection, st)"
| "Collection_loop RoseNode_pick add m_generator p (Suc n) st collection =
     (case pick RoseNode_pick (NoShrink m_generator) (with_pointees p st) of
        (Inl e, st') \<Rightarrow> (Inl e, st')
      | (Inr x, st') \<Rightarrow>
          Collection_loop RoseNode_pick add m_generator p n st' (snd (add collection x)))"

text \<open>
  The number of iterations of \<^verbatim>\<open>for (int i = 0; i < size; i++)\<close>. The comparison converts
  the \<^verbatim>\<open>int\<close> counter to the unsigned \<^verbatim>\<open>SizeT\<close>: counting up from 0 the loop stops at the
  length when the length is at most 2 to the 31; beyond that the counter wraps to
  \<open>- 2 ^ 31\<close>, which converts to 2 to the 64 minus 2 to the 31, and stops the loop unless
  the length is larger still.
\<close>

definition Collection_iterations :: "SizeT \<Rightarrow> nat" where
  "Collection_iterations sz =
     (if unat sz \<le> 2 ^ 31 then unat sz
      else if unat sz \<le> 2 ^ 64 - 2 ^ 31 then 2 ^ 31
      else 2 ^ 31 + (unat sz - (2 ^ 64 - 2 ^ 31)))"

text \<open>
  The length is \<^verbatim>\<open>*ranged<SizeT>(0, currentSize() + 1)\<close>: the sum is an \<^verbatim>\<open>int\<close>, converted to
  the unsigned \<^verbatim>\<open>SizeT\<close>. The two picks of a \<^verbatim>\<open>SizeT\<close> (of the range, and inside it) and the
  picks of the elements are instances of \<^verbatim>\<open>RoseNode::pick\<close> at different types, hence two
  parameters.
\<close>

definition Collection_size ::
  "('r, 'n, SizeT) RoseNode_pick \<Rightarrow> int \<Rightarrow> ('r, 'n, SizeT) Generator
     \<Rightarrow> ('r, 'n) GenerationParams \<Rightarrow> ('r, 'n, SizeT) draw" where
  "Collection_size RoseNode_pick_SizeT kNominalSize arbitrary_SizeT p =
     pick RoseNode_pick_SizeT
       (Ranged RoseNode_pick_SizeT False kNominalSize arbitrary_SizeT 0
          (of_int (int_wrap (param_Size p + 1)))) p"

definition Collection_generate ::
  "('r, 'n, SizeT) RoseNode_pick \<Rightarrow> ('r, 'n, 'a) RoseNode_pick \<Rightarrow> int
     \<Rightarrow> ('r, 'n, SizeT) Generator \<Rightarrow> ('a list \<Rightarrow> 'a \<Rightarrow> bool \<times> 'a list)
     \<Rightarrow> ('r, 'n, 'a) Generator \<Rightarrow> ('r, 'n) GenerationParams \<Rightarrow> ('r, 'n, 'a list) draw" where
  "Collection_generate RoseNode_pick_SizeT RoseNode_pick kNominalSize arbitrary_SizeT add
       m_generator p =
     (case Collection_size RoseNode_pick_SizeT kNominalSize arbitrary_SizeT p of
        (Inl e, st') \<Rightarrow> (Inl e, st')
      | (Inr sz, st') \<Rightarrow>
          Collection_loop RoseNode_pick add m_generator p (Collection_iterations sz) st' [])"

definition Collection_shrink ::
  "bool \<Rightarrow> ('a list \<Rightarrow> 'a list list) \<Rightarrow> ('r, 'n, 'a) Generator \<Rightarrow> 'a list \<Rightarrow> 'a list list" where
  "Collection_shrink IsCopyConstructible removeChunks m_generator val =
     (if IsCopyConstructible then
        shrink_sequentially
          (removeChunks val)
          (shrink_eachElement val (\<lambda>element. shrink m_generator element))
      else shrink_nothing)"

definition Collection ::
  "('r, 'n, SizeT) RoseNode_pick \<Rightarrow> ('r, 'n, 'a) RoseNode_pick \<Rightarrow> int
     \<Rightarrow> ('r, 'n, SizeT) Generator \<Rightarrow> ('a list \<Rightarrow> 'a \<Rightarrow> bool \<times> 'a list) \<Rightarrow> bool
     \<Rightarrow> ('a list \<Rightarrow> 'a list list) \<Rightarrow> ('r, 'n, 'a) Generator \<Rightarrow> ('r, 'n, 'a list) Generator" where
  "Collection RoseNode_pick_SizeT RoseNode_pick kNominalSize arbitrary_SizeT add
       IsCopyConstructible removeChunks m_generator =
     \<lparr>generate = Collection_generate RoseNode_pick_SizeT RoseNode_pick kNominalSize
                   arbitrary_SizeT add m_generator,
      shrink = Collection_shrink IsCopyConstructible removeChunks m_generator\<rparr>"

text \<open>The specialization for \<^verbatim>\<open>std::array<T, N>\<close>: the value is a list of N elements.\<close>

definition Collection_array_shrink ::
  "bool \<Rightarrow> ('r, 'n, 'a) Generator \<Rightarrow> 'a list \<Rightarrow> 'a list list" where
  "Collection_array_shrink IsCopyConstructible m_generator val =
     (if IsCopyConstructible then
        shrink_eachElement val (\<lambda>element. shrink m_generator element)
      else shrink_nothing)"

text \<open>
  The element draws of \<^verbatim>\<open>Collection::generate\<close> written out one by one, from the engine
  and the node \<open>st\<close> that the draw of the length has left: draw i is the pick of
  \<^verbatim>\<open>noShrink(m_generator)\<close> in the context of the caller.
\<close>

fun Collection_pointees ::
  "('r, 'n, 'a) RoseNode_pick \<Rightarrow> ('r, 'n, 'a) Generator \<Rightarrow> ('r, 'n) GenerationParams
     \<Rightarrow> 'r \<times> 'n option \<Rightarrow> nat \<Rightarrow> 'r \<times> 'n option" where
  "Collection_pointees np g p st 0 = st"
| "Collection_pointees np g p st (Suc i) =
     snd (pick np (NoShrink g) (with_pointees p (Collection_pointees np g p st i)))"

definition Collection_element ::
  "('r, 'n, 'a) RoseNode_pick \<Rightarrow> ('r, 'n, 'a) Generator \<Rightarrow> ('r, 'n) GenerationParams
     \<Rightarrow> 'r \<times> 'n option \<Rightarrow> nat \<Rightarrow> ('r, 'n, 'a) draw" where
  "Collection_element np g p st i =
     pick np (NoShrink g) (with_pointees p (Collection_pointees np g p st i))"

text \<open>The builder of a sequence container such as \<^verbatim>\<open>std::vector\<close>: every element is appended.\<close>

definition push_back :: "'a list \<Rightarrow> 'a \<Rightarrow> bool \<times> 'a list" where
  "push_back collection x = (True, collection @ [x])"

subsection \<open>TupleOf and PairOf\<close>

text \<open>
  \<^verbatim>\<open>TupleOf<Gen, Gens...>\<close> holds the generator of the head and a \<^verbatim>\<open>TupleOf<Gens...>\<close> for the
  tail; \<^verbatim>\<open>TupleOf<>\<close> inherits the default \<^verbatim>\<open>shrink\<close>. A tuple is the list of its
  components, taken in one common type: \<^verbatim>\<open>std::get<0>\<close> is \<open>hd\<close>, \<^verbatim>\<open>detail::tupleTail\<close> is
  \<open>tl\<close>, and \<^verbatim>\<open>std::tuple_cat\<close> of a one-element tuple and a tuple is \<open>#\<close>. The generators
  come as a list, each paired with the trait \<^verbatim>\<open>detail::IsCopyConstructible<TupleT>\<close> of the
  tuple type at its level (the components from there on); the tail type of a
  copy-constructible tuple type is copy-constructible.
\<close>

fun TupleOf_shrink :: "(bool \<times> ('r, 'n, 'a) Generator) list \<Rightarrow> 'a list \<Rightarrow> 'a list list" where
  "TupleOf_shrink [] val = Generator_shrink val"
| "TupleOf_shrink ((IsCopyConstructible, m_headGenerator) # m_tailGenerator) val =
     (if IsCopyConstructible then
        shrink_sequentially
          (shrink_map (shrink m_headGenerator (hd val)) (\<lambda>x. x # tl val))
          (shrink_map (TupleOf_shrink m_tailGenerator (tl val)) (\<lambda>x. hd val # x))
      else shrink_nothing)"

text \<open>
  \<^verbatim>\<open>PairOf\<close> holds a \<^verbatim>\<open>TupleOf<Gen1, Gen2>\<close> and maps its shrinks back to pairs. The two traits
  are those of \<^verbatim>\<open>std::tuple<T1, T2>\<close> and of \<^verbatim>\<open>std::tuple<T2>\<close>.
\<close>

definition PairOf_shrink ::
  "bool \<Rightarrow> bool \<Rightarrow> ('r, 'n, 'a) Generator \<Rightarrow> ('r, 'n, 'a) Generator \<Rightarrow> 'a \<times> 'a \<Rightarrow> ('a \<times> 'a) list" where
  "PairOf_shrink IsCopyConstructible12 IsCopyConstructible2 generator1 generator2 val =
     shrink_map
       (TupleOf_shrink [(IsCopyConstructible12, generator1), (IsCopyConstructible2, generator2)]
          [fst val, snd val])
       (\<lambda>x. (x ! 0, x ! 1))"

text \<open>
  \<open>halving\<close> is \<open>drawCounter\<close> with a shrink of its own: a value other than 0 shrinks to 0
  and to its half.
\<close>

definition halving :: "(nat, unit, int) Generator" where
  "halving = drawCounter\<lparr>shrink := (\<lambda>x. if x = 0 then [] else [0, x div 2])\<rparr>"

section \<open>Theorems\<close>

text \<open>
  C7. For every generator g and every value v, the shrink of \<open>noShrink(g)\<close> is the empty
  iterator: NoShrink does not override \<^verbatim>\<open>shrink\<close>, and the default of the base class is
  \<^verbatim>\<open>shrink::nothing\<close>. Its \<^verbatim>\<open>generate\<close> runs \<^verbatim>\<open>g.generate()\<close> in the current context with
  the no-shrink parameter bound to true; size, engine and node are the caller's.
\<close>

theorem NoShrink_shrink_empty_generate_flag:
  "shrink (NoShrink g) v = [] \<and>
   shrink (NoShrink g) v = Generator_shrink v \<and>
   generate (NoShrink g) p = generate g (p\<lparr>param_NoShrink := True\<rparr>) \<and>
   param_NoShrink (p\<lparr>param_NoShrink := True\<rparr>) \<and>
   param_Size (p\<lparr>param_NoShrink := True\<rparr>) = param_Size p \<and>
   param_RandomEngine (p\<lparr>param_NoShrink := True\<rparr>) = param_RandomEngine p \<and>
   param_CurrentNode (p\<lparr>param_NoShrink := True\<rparr>) = param_CurrentNode p"
  by (simp add: NoShrink_def NoShrink_generate_def Generator_shrink_def shrink_nothing_def)

subsection \<open>Contexts and picks\<close>

lemma int_wrap_id: "- (2 ^ 31) \<le> x \<Longrightarrow> x < 2 ^ 31 \<Longrightarrow> int_wrap x = x"
  by (simp add: int_wrap_def)

lemma pick_top: "param_CurrentNode p = None \<Longrightarrow> pick np g p = generate g p"
  by (simp add: pick_def)

lemma generate_NoShrink_Resize:
  "generate (NoShrink (Resize sz g)) p =
     generate g (p\<lparr>param_NoShrink := True, param_Size := sz\<rparr>)"
  by (simp add: NoShrink_def NoShrink_generate_def Resize_def Resize_generate_def)

lemma with_pointees_pointees [simp]: "with_pointees p (pointees p) = p"
  by (simp add: with_pointees_def pointees_def)

lemma selectors_with_pointees [simp]:
  "param_Size (with_pointees p st) = param_Size p"
  "param_NoShrink (with_pointees p st) = param_NoShrink p"
  "param_RandomEngine (with_pointees p st) = fst st"
  "param_CurrentNode (with_pointees p st) = snd st"
  by (simp_all add: with_pointees_def)

subsection \<open>SuchThat\<close>

lemma SuchThat_loop_step:
  assumes "- (2 ^ 31) \<le> param_Size p" and "param_Size p \<le> 2 ^ 31 - 102" and "k \<le> 100"
  shows "SuchThat_loop np g pr p (param_Size p) (param_Size p + int k)
           (SuchThat_pointees np g p k) =
     (case SuchThat_attempt np g p k of
        (Inl e, st') \<Rightarrow> (Inl e, st')
      | (Inr x, st') \<Rightarrow>
          if pr x then (Inr x, st')
          else if k \<ge> 100 then (Inl gaveUp, st')
          else SuchThat_loop np g pr p (param_Size p) (param_Size p + int k + 1) st')"
proof -
  have w1: "int_wrap (param_Size p + int k + 1) = param_Size p + int k + 1"
    using assms by (intro int_wrap_id) linarith+
  have w2: "int_wrap (param_Size p + int k + 1 - param_Size p) = int k + 1"
    using assms by (simp add: int_wrap_id)
  show ?thesis
    apply (subst SuchThat_loop.simps)
    apply (simp only: w1 w2 SuchThat_attempt_def)
    apply (simp split: prod.splits sum.splits)
    done
qed

lemma SuchThat_loop_rejected:
  assumes "- (2 ^ 31) \<le> param_Size p" and "param_Size p \<le> 2 ^ 31 - 102"
    and "\<forall>k<n. \<exists>x. fst (SuchThat_attempt np g p k) = Inr x \<and> \<not> pr x" and "n \<le> 100"
  shows "SuchThat_loop np g pr p (param_Size p) (param_Size p) (pointees p) =
         SuchThat_loop np g pr p (param_Size p) (param_Size p + int n)
           (SuchThat_pointees np g p n)"
  using assms(3,4)
proof (induction n)
  case 0
  then show ?case by simp
next
  case (Suc n)
  from Suc.prems obtain x where x: "fst (SuchThat_attempt np g p n) = Inr x" "\<not> pr x"
    by auto
  then have att: "SuchThat_attempt np g p n = (Inr x, SuchThat_pointees np g p (Suc n))"
    by (simp add: SuchThat_attempt_def prod_eq_iff)
  have n: "n \<le> 100" "\<not> 100 \<le> n"
    using Suc.prems(2) by simp_all
  have "SuchThat_loop np g pr p (param_Size p) (param_Size p) (pointees p) =
        SuchThat_loop np g pr p (param_Size p) (param_Size p + int n)
          (SuchThat_pointees np g p n)"
    using Suc by simp
  also have "\<dots> = SuchThat_loop np g pr p (param_Size p) (param_Size p + int n + 1)
                     (SuchThat_pointees np g p (Suc n))"
    by (subst SuchThat_loop_step [OF assms(1,2) n(1)]) (simp add: att x(2) n(2))
  also have "param_Size p + int n + 1 = param_Size p + int (Suc n)"
    by simp
  finally show ?case .
qed

lemma SuchThat_generate_attempt:
  assumes "- (2 ^ 31) \<le> param_Size p" and "param_Size p \<le> 2 ^ 31 - 102"
    and "\<forall>k<n. \<exists>x. fst (SuchThat_attempt np g p k) = Inr x \<and> \<not> pr x" and "n \<le> 100"
  shows "generate (SuchThat np g pr) p =
     (case SuchThat_attempt np g p n of
        (Inl e, st') \<Rightarrow> (Inl e, st')
      | (Inr x, st') \<Rightarrow>
          if pr x then (Inr x, st')
          else if n \<ge> 100 then (Inl gaveUp, st')
          else SuchThat_loop np g pr p (param_Size p) (param_Size p + int n + 1) st')"
proof -
  have "generate (SuchThat np g pr) p =
        SuchThat_loop np g pr p (param_Size p) (param_Size p) (pointees p)"
    by (simp add: SuchThat_def SuchThat_generate_def)
  also have "\<dots> =
        SuchThat_loop np g pr p (param_Size p) (param_Size p + int n)
          (SuchThat_pointees np g p n)"
    using assms by (rule SuchThat_loop_rejected)
  finally show ?thesis
    by (simp only: SuchThat_loop_step [OF assms(1,2,4)])
qed

lemma SuchThat_loop_False:
  "\<exists>e. fst (SuchThat_loop np g (\<lambda>x. False) p s0 sz st) = Inl e"
proof (induction np g "\<lambda>x::'a. False" p s0 sz st rule: SuchThat_loop.induct)
  case (1 np g p s0 sz st)
  show ?case
    apply (subst SuchThat_loop.simps)
    using 1
    apply (auto split: prod.splits sum.splits)
    done
qed

lemma SuchThat_loop_never:
  assumes "\<forall>x. \<not> pr x"
  shows "\<exists>e. fst (SuchThat_loop np g pr p s0 sz st) = Inl e"
proof -
  from assms have "pr = (\<lambda>x. False)" by auto
  then show ?thesis using SuchThat_loop_False by simp
qed

lemma params0_sel:
  "param_Size params0 = 0" "param_NoShrink params0 = False"
  "param_RandomEngine params0 = 0" "param_CurrentNode params0 = None"
  by (simp_all add: params0_def)

lemma pick_drawCounter:
  "pick no_RoseNode (NoShrink (Resize sz drawCounter)) (with_pointees params0 (k, None)) =
     (Inr sz, Suc k, None)"
  by (simp add: pick_top generate_NoShrink_Resize drawCounter_def)

lemma drawCounter_pointees: "SuchThat_pointees no_RoseNode drawCounter params0 k = (k, None)"
  by (induction k) (simp_all add: pick_drawCounter pointees_def params0_sel)

lemma drawCounter_attempt:
  "SuchThat_attempt no_RoseNode drawCounter params0 k = (Inr (int k), Suc k, None)"
  by (simp add: SuchThat_attempt_def drawCounter_pointees pick_drawCounter params0_sel)

lemma params0_Size: "- (2 ^ 31) \<le> param_Size params0" "param_Size params0 \<le> 2 ^ 31 - 102"
  by (simp_all add: params0_def)

text \<open>
  C1, as the claim states it: "giving up after 100 consecutive rejections". This fails.
  With a generator that returns the size it is run at and a predicate that accepts 100
  only, started at size 0, the values 0 to 99 are rejected, that is 100 consecutive
  rejections, and the loop does not give up: it draws once more, at size 100, and returns
  100. With a predicate that is always false the failure comes after 101 draws (the engine
  has counted 101), hence after 101 rejections.
\<close>

theorem SuchThat_gives_up_after_100_counterexample:
  "generate (SuchThat no_RoseNode drawCounter (\<lambda>x. x = 100)) params0 =
     (Inr 100, 101, None) \<and>
   generate (SuchThat no_RoseNode drawCounter (\<lambda>x. False)) params0 =
     (Inl gaveUp, 101, None)"
proof -
  have rej: "\<forall>k<100. \<exists>x. fst (SuchThat_attempt no_RoseNode drawCounter params0 k) = Inr x \<and>
               \<not> x = 100"
    by (simp add: drawCounter_attempt)
  have "generate (SuchThat no_RoseNode drawCounter (\<lambda>x. x = 100)) params0 =
          (Inr 100, 101, None)"
    by (subst SuchThat_generate_attempt [where n = 100, OF params0_Size rej])
       (simp_all add: drawCounter_attempt)
  moreover have "generate (SuchThat no_RoseNode drawCounter (\<lambda>x. False)) params0 =
          (Inl gaveUp, 101, None)"
    by (subst SuchThat_generate_attempt [where n = 100, OF params0_Size])
       (simp_all add: drawCounter_attempt)
  ultimately show ?thesis by simp
qed

text \<open>
  C1, amended. At a size s with s + 101 still an \<^verbatim>\<open>int\<close>, \<open>suchThat(g, pred)\<close> draws by
  picking \<open>noShrink(resize(s + k, g))\<close>, attempt k at the size of the caller plus k, which
  in top-level sampling runs g with the no-shrink parameter set at that size. After n
  consecutive rejections, n at most 100, the next attempt is made: an accepted value is
  returned; a value rejected when n = 100, the 101st rejection in a row, ends the loop with
  the GenerationFailure "Gave up ...". With a predicate that is always false no value is
  ever returned.
\<close>

theorem SuchThat_generate_retries:
  assumes "- (2 ^ 31) \<le> param_Size p" and "param_Size p \<le> 2 ^ 31 - 102"
    and "n \<le> 100"
    and "\<forall>k<n. \<exists>x. fst (SuchThat_attempt np g p k) = Inr x \<and> \<not> pr x"
  shows "SuchThat_attempt np g p n =
           pick np (NoShrink (Resize (param_Size p + int n) g))
             (with_pointees p (SuchThat_pointees np g p n)) \<and>
         (snd (SuchThat_pointees np g p n) = None \<longrightarrow>
            SuchThat_attempt np g p n =
              generate g ((with_pointees p (SuchThat_pointees np g p n))
                \<lparr>param_NoShrink := True, param_Size := param_Size p + int n\<rparr>)) \<and>
         (\<forall>x st'. SuchThat_attempt np g p n = (Inr x, st') \<and> pr x \<longrightarrow>
            generate (SuchThat np g pr) p = (Inr x, st')) \<and>
         (\<forall>x st'. SuchThat_attempt np g p n = (Inr x, st') \<and> \<not> pr x \<and> n = 100 \<longrightarrow>
            generate (SuchThat np g pr) p = (Inl gaveUp, st')) \<and>
         ((\<forall>x. \<not> pr x) \<longrightarrow> (\<exists>e. fst (generate (SuchThat np g pr) p) = Inl e))"
proof -
  note eq = SuchThat_generate_attempt [OF assms(1,2,4,3)]
  have a: "SuchThat_attempt np g p n =
           pick np (NoShrink (Resize (param_Size p + int n) g))
             (with_pointees p (SuchThat_pointees np g p n))"
    by (simp add: SuchThat_attempt_def)
  have a': "snd (SuchThat_pointees np g p n) = None \<longrightarrow>
            SuchThat_attempt np g p n =
              generate g ((with_pointees p (SuchThat_pointees np g p n))
                \<lparr>param_NoShrink := True, param_Size := param_Size p + int n\<rparr>)"
    by (simp add: SuchThat_attempt_def pick_top generate_NoShrink_Resize)
  have b: "\<forall>x st'. SuchThat_attempt np g p n = (Inr x, st') \<and> pr x \<longrightarrow>
            generate (SuchThat np g pr) p = (Inr x, st')"
    by (simp add: eq)
  have c: "\<forall>x st'. SuchThat_attempt np g p n = (Inr x, st') \<and> \<not> pr x \<and> n = 100 \<longrightarrow>
            generate (SuchThat np g pr) p = (Inl gaveUp, st')"
    using eq by auto
  have d: "(\<forall>x. \<not> pr x) \<longrightarrow> (\<exists>e. fst (generate (SuchThat np g pr) p) = Inl e)"
    by (simp add: SuchThat_def SuchThat_generate_def SuchThat_loop_never)
  from a a' b c d show ?thesis by blast
qed

theorem SuchThat_generate_retries_witness:
  "generate (SuchThat no_RoseNode drawCounter (\<lambda>x. x = 7)) params0 = (Inr 7, 8, None) \<and>
   generate (SuchThat no_RoseNode drawCounter (\<lambda>x. x < 0)) params0 =
     (Inl gaveUp, 101, None) \<and>
   (\<exists>e. fst (generate (SuchThat no_RoseNode drawCounter (\<lambda>x. x < 0)) params0) = Inl e)"
proof -
  have r7: "\<forall>k<7. \<exists>x. fst (SuchThat_attempt no_RoseNode drawCounter params0 k) = Inr x \<and>
              \<not> x = 7"
    by (simp add: drawCounter_attempt)
  have r100: "\<forall>k<100. \<exists>x. fst (SuchThat_attempt no_RoseNode drawCounter params0 k) = Inr x \<and>
                \<not> x < 0"
    by (simp add: drawCounter_attempt)
  have n7: "(7::nat) \<le> 100" and n100: "(100::nat) \<le> 100"
    by simp_all
  have "generate (SuchThat no_RoseNode drawCounter (\<lambda>x. x = 7)) params0 = (Inr 7, 8, None)"
    using SuchThat_generate_retries [OF params0_Size n7 r7]
    by (simp add: drawCounter_attempt)
  moreover have "generate (SuchThat no_RoseNode drawCounter (\<lambda>x. x < 0)) params0 =
      (Inl gaveUp, 101, None)"
    using SuchThat_generate_retries [OF params0_Size n100 r100]
    by (simp add: drawCounter_attempt)
  ultimately show ?thesis by simp
qed

subsection \<open>Ranged\<close>

lemma two_power_len: "(2::int) ^ LENGTH('a::len) = 2 * 2 ^ (LENGTH('a) - 1)"
proof (cases "LENGTH('a)")
  case 0
  then show ?thesis by simp
next
  case (Suc n)
  then show ?thesis by simp
qed

lemma ranged_unsigned:
  fixes lo hi u :: "'a::len word"
  assumes "uint lo < uint hi"
  shows "uint (lo + u mod (hi - lo)) = uint lo + uint u mod (uint hi - uint lo)"
proof -
  have d: "uint (hi - lo) = uint hi - uint lo"
    using assms by (simp add: uint_sub_if')
  have m: "uint (u mod (hi - lo)) = uint u mod (uint hi - uint lo)"
    by (simp add: uint_mod_distrib d)
  have "uint u mod (uint hi - uint lo) < uint hi - uint lo"
    using assms by simp
  then have "uint lo + uint (u mod (hi - lo)) < 2 ^ LENGTH('a)"
    using m uint_lt2p [of hi] by linarith
  then show ?thesis
    using m by (simp add: uint_add_lem [THEN iffD1])
qed

lemma ranged_signed:
  fixes lo hi u :: "'a::len word"
  assumes "sint lo < sint hi"
  shows "sint (lo + u mod (hi - lo)) = sint lo + uint u mod (sint hi - sint lo)"
proof -
  have bl: "- (2 ^ (LENGTH('a) - 1)) \<le> sint lo" and bh: "sint hi < 2 ^ (LENGTH('a) - 1)"
    by (rule sint_ge, rule sint_lt)
  note p = two_power_len [where 'a = 'a]
  have "hi - lo = word_of_int (sint hi - sint lo)"
    by simp
  then have "uint (hi - lo) = (sint hi - sint lo) mod 2 ^ LENGTH('a)"
    by (metis uint_word_of_int)
  also have "\<dots> = sint hi - sint lo"
    using assms bl bh p by simp
  finally have d: "uint (hi - lo) = sint hi - sint lo" .
  define x where "x = uint u mod (sint hi - sint lo)"
  have m: "uint (u mod (hi - lo)) = x"
    by (simp add: uint_mod_distrib d x_def)
  have x: "0 \<le> x" "x < sint hi - sint lo"
    using assms by (simp_all add: x_def)
  have "lo + u mod (hi - lo) = word_of_int (sint lo + x)"
    using m by fastforce
  moreover have "sint (word_of_int (sint lo + x) :: 'a word) = sint lo + x"
    unfolding sint_sbintrunc'
    using x bl bh by (intro signed_take_bit_int_eq_self) linarith+
  ultimately show ?thesis
    by (simp add: x_def)
qed

lemma ranged_T_value:
  assumes "T_value sg lo < T_value sg hi"
  shows "T_value sg (lo + u mod (hi - lo)) =
         T_value sg lo + uint u mod (T_value sg hi - T_value sg lo)"
  using assms by (simp add: T_value_def ranged_signed ranged_unsigned split: if_splits)

lemma ranged_in_interval:
  assumes "T_value sg lo < T_value sg hi"
  shows "T_value sg lo \<le> T_value sg (lo + u mod (hi - lo)) \<and>
         T_value sg (lo + u mod (hi - lo)) < T_value sg hi"
proof -
  have "0 \<le> uint u mod (T_value sg hi - T_value sg lo)"
    and "uint u mod (T_value sg hi - T_value sg lo) < T_value sg hi - T_value sg lo"
    using assms by simp_all
  then show ?thesis
    by (simp add: ranged_T_value [OF assms])
qed

lemma Ranged_generate_proper:
  assumes "T_value sg lo < T_value sg hi"
  shows "generate (Ranged np sg k arb lo hi) p =
     (case pick np (NoShrink (Resize k arb)) p of
        (Inl e, st') \<Rightarrow> (Inl e, st')
      | (Inr val, st') \<Rightarrow> (Inr (lo + val mod (hi - lo)), st'))"
proof -
  from assms have "hi \<noteq> lo" by auto
  with assms show ?thesis
    by (simp add: Ranged_def Ranged_generate_def)
qed

text \<open>
  C2. \<open>ranged(lo, hi)\<close> with hi below lo raises GenerationFailure (the message names the
  range) and leaves the engine and the node alone; \<open>ranged(a, a)\<close> returns a; with lo
  below hi every value returned lies in the half-open interval from lo to hi, and a value
  is returned whenever the inner pick of \<^verbatim>\<open>arbitrary<Uint>\<close> returns one, namely lo plus that
  value modulo hi - lo. The claim gives the case lo = hi apart, so its interval clause is
  read for lo below hi.
\<close>

theorem Ranged_generate_interval:
  "(T_value sg hi < T_value sg lo \<longrightarrow>
      generate (Ranged np sg k arb lo hi) p =
        (Inl (GenerationFailure
           (''Invalid range ['' @ to_string (T_value sg lo) @
            '', '' @ to_string (T_value sg hi) @ '')'')),
         pointees p)) \<and>
   generate (Ranged np sg k arb a a) p = (Inr a, pointees p) \<and>
   (T_value sg lo < T_value sg hi \<longrightarrow>
      (\<forall>v. fst (generate (Ranged np sg k arb lo hi) p) = Inr v \<longrightarrow>
         T_value sg lo \<le> T_value sg v \<and> T_value sg v < T_value sg hi)) \<and>
   (T_value sg lo < T_value sg hi \<longrightarrow>
      (\<forall>u st'. pick np (NoShrink (Resize k arb)) p = (Inr u, st') \<longrightarrow>
         generate (Ranged np sg k arb lo hi) p = (Inr (lo + u mod (hi - lo)), st')))"
proof -
  have a: "T_value sg hi < T_value sg lo \<longrightarrow>
      generate (Ranged np sg k arb lo hi) p =
        (Inl (GenerationFailure
           (''Invalid range ['' @ to_string (T_value sg lo) @
            '', '' @ to_string (T_value sg hi) @ '')'')),
         pointees p)"
    by (simp add: Ranged_def Ranged_generate_def)
  have b: "generate (Ranged np sg k arb a a) p = (Inr a, pointees p)"
    by (simp add: Ranged_def Ranged_generate_def)
  have c: "T_value sg lo < T_value sg hi \<longrightarrow>
      (\<forall>v. fst (generate (Ranged np sg k arb lo hi) p) = Inr v \<longrightarrow>
         T_value sg lo \<le> T_value sg v \<and> T_value sg v < T_value sg hi)"
    using ranged_in_interval [of sg lo hi]
    by (auto simp: Ranged_generate_proper split: prod.splits sum.splits)
  have d: "T_value sg lo < T_value sg hi \<longrightarrow>
      (\<forall>u st'. pick np (NoShrink (Resize k arb)) p = (Inr u, st') \<longrightarrow>
         generate (Ranged np sg k arb lo hi) p = (Inr (lo + u mod (hi - lo)), st'))"
    by (simp add: Ranged_generate_proper)
  from a b c d show ?thesis by blast
qed

theorem Ranged_generate_interval_witness:
  "generate (Ranged no_RoseNode True 100 engineWord (5 :: 32 word) (- 5)) params0 =
     (Inl (GenerationFailure ''Invalid range [5, -5)''), 0, None) \<and>
   generate (Ranged no_RoseNode True 100 engineWord (7 :: 32 word) 7) params0 =
     (Inr 7, 0, None) \<and>
   generate (Ranged no_RoseNode True 100 engineWord (- 5 :: 32 word) 5)
     (params0\<lparr>param_RandomEngine := 13\<rparr>) = (Inr (- 2), 14, None) \<and>
   T_value True (- 5 :: 32 word) \<le> T_value True (- 2 :: 32 word) \<and>
   T_value True (- 2 :: 32 word) < T_value True (5 :: 32 word)"
proof -
  have lt: "T_value True (- 5 :: 32 word) < T_value True (5 :: 32 word)"
    by (simp add: T_value_def)
  have pk: "pick no_RoseNode (NoShrink (Resize 100 engineWord))
              (params0\<lparr>param_RandomEngine := 13\<rparr>) = (Inr (13 :: 32 word), 14, None)"
    by (simp add: pick_top generate_NoShrink_Resize engineWord_def params0_def)
  have "generate (Ranged no_RoseNode True 100 engineWord (5 :: 32 word) (- 5)) params0 =
     (Inl (GenerationFailure ''Invalid range [5, -5)''), 0, None)"
    using Ranged_generate_interval [where sg = True and lo = "5 :: 32 word" and hi = "- 5"
        and k = 100 and arb = engineWord and p = params0 and np = no_RoseNode]
    by (simp add: T_value_def to_string_def to_string_nat.simps params0_def pointees_def)
  moreover have "generate (Ranged no_RoseNode True 100 engineWord (7 :: 32 word) 7) params0 =
     (Inr 7, 0, None)"
    using Ranged_generate_interval [where sg = True and a = "7 :: 32 word"
        and k = 100 and arb = engineWord and p = params0 and np = no_RoseNode]
    by (simp add: params0_def pointees_def)
  moreover have g: "generate (Ranged no_RoseNode True 100 engineWord (- 5 :: 32 word) 5)
     (params0\<lparr>param_RandomEngine := 13\<rparr>) = (Inr (- 2), 14, None)"
    using Ranged_generate_interval [where sg = True and lo = "- 5 :: 32 word" and hi = 5
        and k = 100 and arb = engineWord and np = no_RoseNode
        and p = "params0\<lparr>param_RandomEngine := 13\<rparr>"] lt pk
    by simp
  moreover have "T_value True (- 5 :: 32 word) \<le> T_value True (- 2 :: 32 word) \<and>
   T_value True (- 2 :: 32 word) < T_value True (5 :: 32 word)"
    using Ranged_generate_interval [where sg = True and lo = "- 5 :: 32 word" and hi = 5
        and k = 100 and arb = engineWord and np = no_RoseNode
        and p = "params0\<lparr>param_RandomEngine := 13\<rparr>"] lt g
    by simp
  ultimately show ?thesis by blast
qed

subsection \<open>Scale\<close>

lemma double_truncate_truncates:
  "\<bar>of_int (double_truncate m e)\<bar> \<le> \<bar>double_value m e\<bar> \<and>
   \<bar>double_value m e - of_int (double_truncate m e)\<bar> < 1"
proof (cases "0 \<le> e")
  case True
  then show ?thesis
    by (simp add: double_truncate_def double_value_def)
next
  case False
  define D :: int where "D = 2 ^ nat (- e)"
  have D: "0 < D" by (simp add: D_def)
  define a where "a = \<bar>m\<bar>"
  have a: "0 \<le> a" by (simp add: a_def)
  have t: "double_truncate m e = sgn m * (a div D)"
    using False by (simp add: double_truncate_def D_def a_def)
  have "m = sgn m * a"
    by (simp add: a_def mult_sgn_abs)
  then have "(of_int m :: rat) = of_int (sgn m) * of_int a"
    by (metis of_int_mult)
  then have v: "double_value m e = of_int (sgn m) * (of_int a / of_int D)"
    using False by (simp add: double_value_def D_def)
  have fl: "a div D = \<lfloor>(of_int a / of_int D :: rat)\<rfloor>"
    by (simp add: floor_divide_of_int_eq)
  have q: "of_int (a div D) \<le> (of_int a / of_int D :: rat)"
    unfolding fl by (rule of_int_floor_le)
  have r: "(of_int a / of_int D :: rat) < of_int (a div D) + 1"
    unfolding fl by linarith
  have q0: "(0::rat) \<le> of_int (a div D)"
    using D a by (simp add: pos_imp_zdiv_nonneg_iff)
  have sg: "m = 0 \<or> \<bar>of_int (sgn m) :: rat\<bar> = 1"
    by (cases "m = 0") (simp_all add: sgn_if)
  show ?thesis
  proof (cases "m = 0")
    case True
    then show ?thesis by (simp add: double_truncate_def double_value_def)
  next
    case False
    then have s1: "\<bar>of_int (sgn m) :: rat\<bar> = 1" using sg by simp
    have "\<bar>of_int (double_truncate m e) :: rat\<bar> = of_int (a div D)"
      using q0 s1 by (simp add: t abs_mult)
    moreover have "\<bar>double_value m e\<bar> = of_int a / of_int D"
      using D a s1 by (simp add: v abs_mult)
    moreover have "double_value m e - of_int (double_truncate m e) =
        of_int (sgn m) * (of_int a / of_int D - of_int (a div D))"
      by (simp add: t v algebra_simps)
    then have "\<bar>double_value m e - of_int (double_truncate m e)\<bar> =
        of_int a / of_int D - of_int (a div D)"
      using q s1 by (simp add: abs_mult)
    ultimately show ?thesis using q r by simp
  qed
qed

lemma double_to_int_in_range:
  assumes "- (2 ^ 31) - 1 < double_value m e" and "double_value m e < 2 ^ 31"
  shows "double_to_int (Finite m e) = double_truncate m e"
proof -
  define t where "t = double_truncate m e"
  define v where "v = double_value m e"
  have ab: "\<bar>of_int t\<bar> \<le> \<bar>v\<bar>" and df: "\<bar>v - of_int t\<bar> < 1"
    using double_truncate_truncates [of m e] by (simp_all add: t_def v_def)
  have "(of_int t :: rat) < of_int (2 ^ 31)" and "of_int (- (2 ^ 31) - 1) < (of_int t :: rat)"
    using ab df assms unfolding v_def [symmetric]
    by (simp_all add: abs_if split: if_splits)
  then have "t < 2 ^ 31" and "- (2 ^ 31) - 1 < t"
    by (simp_all only: of_int_less_iff)
  then show ?thesis
    by (simp add: double_to_int_def Let_def t_def)
qed

lemma bit_length_double: "0 < a \<Longrightarrow> bit_length (a * 2) = 1 + bit_length a"
  by (subst bit_length.simps) simp

lemma bit_length_shift: "0 < a \<Longrightarrow> bit_length (a * 2 ^ j) = bit_length a + int j"
proof (induction j)
  case 0
  then show ?case by simp
next
  case (Suc j)
  have "a * 2 ^ Suc j = (a * 2 ^ j) * 2" by simp
  moreover have "0 < a * 2 ^ j" using Suc.prems by simp
  ultimately have "bit_length (a * 2 ^ Suc j) = 1 + bit_length (a * 2 ^ j)"
    by (simp only: bit_length_double)
  then show ?case using Suc by simp
qed

lemma double_value_shift:
  assumes "q \<le> e"
  shows "double_value (n * 2 ^ nat (e - q)) q = double_value n e"
proof -
  define j where "j = nat (e - q)"
  have e: "e = q + int j" using assms by (simp add: j_def)
  show ?thesis
  proof (cases "0 \<le> q")
    case True
    then have "nat e = nat q + j" using e by simp
    then show ?thesis
      using True e by (simp add: double_value_def power_add flip: j_def)
  next
    case q: False
    show ?thesis
    proof (cases "0 \<le> e")
      case True
      then have "j = nat e + nat (- q)" using e q by simp
      then show ?thesis
        using True q by (simp add: double_value_def power_add flip: j_def)
    next
      case False
      then have "nat (- q) = nat (- e) + j" using e q by simp
      then show ?thesis
        using False q by (simp add: double_value_def power_add flip: j_def)
    qed
  qed
qed

lemma round_double_exact:
  assumes "n \<noteq> 0" and "bit_length \<bar>n\<bar> \<le> 53" and "- 1074 \<le> e"
    and "bit_length \<bar>n\<bar> + e \<le> 1024"
  shows "\<exists>m q. round_double n e = Finite m q \<and> double_value m q = double_value n e"
proof -
  define q where "q = max (bit_length \<bar>n\<bar> + e - 53) (- 1074)"
  have qe: "q \<le> e" using assms(2,3) by (simp add: q_def)
  define m where "m = n * 2 ^ nat (e - q)"
  have "\<bar>m\<bar> = \<bar>n\<bar> * 2 ^ nat (e - q)"
    by (simp add: m_def abs_mult)
  moreover have "0 < \<bar>n\<bar>" using assms(1) by simp
  ultimately have "bit_length \<bar>m\<bar> = bit_length \<bar>n\<bar> + int (nat (e - q))"
    by (simp only: bit_length_shift)
  then have "bit_length \<bar>m\<bar> + q = bit_length \<bar>n\<bar> + e"
    using qe by simp
  then have "\<not> bit_length \<bar>m\<bar> + q > 1024"
    using assms(4) by simp
  then have "round_double n e = Finite m q"
    using assms(1) qe by (simp add: round_double_def Let_def flip: q_def m_def)
  moreover have "double_value m q = double_value n e"
    unfolding m_def using qe by (rule double_value_shift)
  ultimately show ?thesis by blast
qed

lemma double_mult_exact:
  assumes "s * mk \<noteq> 0" and "bit_length \<bar>s * mk\<bar> \<le> 53" and "- 1074 \<le> ek"
    and "bit_length \<bar>s * mk\<bar> + ek \<le> 1024"
  shows "\<exists>m e. double_mult (int_to_double s) (Finite mk ek) = Finite m e \<and>
           double_value m e = of_int s * double_value mk ek"
proof -
  have "double_value (s * mk) ek = of_int s * double_value mk ek"
    by (simp add: double_value_def)
  with round_double_exact [OF assms] show ?thesis
    by (simp add: int_to_double_def)
qed

lemma Scale_generate_eq:
  "generate (Scale k g) p =
     generate g
       (p\<lparr>param_Size := double_to_int (double_mult (int_to_double (param_Size p)) k)\<rparr>)"
  by (simp add: Scale_def Scale_generate_def)

lemma double_mult_7_quarter:
  "double_to_int (double_mult (int_to_double 7) (Finite 1 (- 2))) = 1"
  by code_simp

lemma double_mult_10_seven_tenths:
  "double_mult (int_to_double 10) (Finite 6305039478318694 (- 53)) =
     Finite 7881299347898368 (- 50)"
  "double_to_int (Finite 7881299347898368 (- 50)) = 7"
  by code_simp+

text \<open>
  C9, as the claim states it: the size is overridden to size times k rounded to the nearest
  integer. This fails: at size 7 with the factor 0.25 the product is 1.75, exactly, the inner
  generator runs at size 1, and the nearest integer is 2.
\<close>

theorem Scale_rounds_counterexample:
  "generate (Scale (Finite 1 (- 2)) drawCounter) (params0\<lparr>param_Size := 7\<rparr>) =
     (Inr 1, 1, None) \<and>
   double_value 1 (- 2) = 1 / 4 \<and>
   generate drawCounter
     (params0\<lparr>param_Size := round (of_int (param_Size (params0\<lparr>param_Size := 7\<rparr>)) *
                                 double_value 1 (- 2))\<rparr>)
     = (Inr 2, 1, None)"
proof -
  have v: "double_value 1 (- 2) = 1 / 4"
    by (simp add: double_value_def)
  have "round (7 * (1 / 4) :: rat) = 2"
    by (simp add: round_def floor_eq_iff)
  then show ?thesis
    by (simp add: Scale_generate_eq double_mult_7_quarter v drawCounter_def params0_def)
qed

text \<open>
  C9, amended. \<open>scale(k, g).generate()\<close> runs \<open>g.generate()\<close> with the size overridden
  to the \<^verbatim>\<open>double\<close> product of size and k converted to \<^verbatim>\<open>int\<close>, which discards the
  fractional part: where the product is finite and its integer part is an \<^verbatim>\<open>int\<close>, the new
  size is no larger in magnitude than the product and less than 1 away from it. The
  \<^verbatim>\<open>double\<close> product is size times k itself where that number is a \<^verbatim>\<open>double\<close> (a
  significand of at most 53 bits, the exponent in range). The other parameters are the
  caller's, and the shrink of \<open>scale(k, g)\<close> is the shrink of g.
\<close>

theorem Scale_generate_truncates:
  "generate (Scale k g) p =
     generate g
       (p\<lparr>param_Size := double_to_int (double_mult (int_to_double (param_Size p)) k)\<rparr>) \<and>
   shrink (Scale k g) v = shrink g v \<and>
   (\<forall>m e. double_mult (int_to_double (param_Size p)) k = Finite m e \<and>
        - (2 ^ 31) - 1 < double_value m e \<and> double_value m e < 2 ^ 31 \<longrightarrow>
      \<bar>of_int (double_to_int (Finite m e))\<bar> \<le> \<bar>double_value m e\<bar> \<and>
      \<bar>double_value m e - of_int (double_to_int (Finite m e))\<bar> < 1) \<and>
   (\<forall>mk ek. k = Finite mk ek \<and> param_Size p * mk \<noteq> 0 \<and>
        bit_length \<bar>param_Size p * mk\<bar> \<le> 53 \<and> - 1074 \<le> ek \<and>
        bit_length \<bar>param_Size p * mk\<bar> + ek \<le> 1024 \<longrightarrow>
      (\<exists>m e. double_mult (int_to_double (param_Size p)) k = Finite m e \<and>
         double_value m e = of_int (param_Size p) * double_value mk ek))"
proof -
  have a: "\<forall>m e. double_mult (int_to_double (param_Size p)) k = Finite m e \<and>
        - (2 ^ 31) - 1 < double_value m e \<and> double_value m e < 2 ^ 31 \<longrightarrow>
      \<bar>of_int (double_to_int (Finite m e))\<bar> \<le> \<bar>double_value m e\<bar> \<and>
      \<bar>double_value m e - of_int (double_to_int (Finite m e))\<bar> < 1"
    using double_truncate_truncates by (simp add: double_to_int_in_range)
  have b: "\<forall>mk ek. k = Finite mk ek \<and> param_Size p * mk \<noteq> 0 \<and>
        bit_length \<bar>param_Size p * mk\<bar> \<le> 53 \<and> - 1074 \<le> ek \<and>
        bit_length \<bar>param_Size p * mk\<bar> + ek \<le> 1024 \<longrightarrow>
      (\<exists>m e. double_mult (int_to_double (param_Size p)) k = Finite m e \<and>
         double_value m e = of_int (param_Size p) * double_value mk ek)"
    using double_mult_exact by blast
  have c: "generate (Scale k g) p =
     generate g
       (p\<lparr>param_Size := double_to_int (double_mult (int_to_double (param_Size p)) k)\<rparr>)"
    by (rule Scale_generate_eq)
  have d: "shrink (Scale k g) v = shrink g v"
    by (simp add: Scale_def)
  from c d a b show ?thesis
    by (intro conjI)
qed

theorem Scale_generate_truncates_witness:
  "generate (Scale (Finite 6305039478318694 (- 53)) drawCounter)
     (params0\<lparr>param_Size := 10\<rparr>) = (Inr 7, 1, None) \<and>
   double_value 7881299347898368 (- 50) = 7 \<and>
   \<bar>double_value 7881299347898368 (- 50) - of_int (7 :: int)\<bar> < 1 \<and>
   (\<exists>m e. double_mult (int_to_double 7) (Finite 1 (- 2)) = Finite m e \<and>
      double_value m e = 7 * double_value 1 (- 2))"
proof -
  define p where "p = params0\<lparr>param_Size := 10\<rparr>"
  define p7 where "p7 = params0\<lparr>param_Size := 7\<rparr>"
  note th = Scale_generate_truncates [of "Finite 6305039478318694 (- 53)" drawCounter p]
  note th7 = Scale_generate_truncates [of "Finite 1 (- 2)" drawCounter p7]
  have sz: "param_Size p = 10" and sz7: "param_Size p7 = 7"
    by (simp_all add: p_def p7_def)
  have v: "double_value 7881299347898368 (- 50) = 7"
    by (simp add: double_value_def)
  have prod: "double_mult (int_to_double (param_Size p)) (Finite 6305039478318694 (- 53)) =
              Finite 7881299347898368 (- 50)"
    by (simp only: sz double_mult_10_seven_tenths)
  have rng: "- (2 ^ 31) - 1 < double_value 7881299347898368 (- 50)"
     "double_value 7881299347898368 (- 50) < 2 ^ 31"
    by (simp_all add: v)
  have "\<bar>double_value 7881299347898368 (- 50) -
         of_int (double_to_int (Finite 7881299347898368 (- 50)))\<bar> < 1"
    using th [THEN conjunct2, THEN conjunct2, THEN conjunct1, rule_format,
        OF conjI [OF prod conjI [OF rng]]]
    by (rule conjunct2)
  then have d: "\<bar>double_value 7881299347898368 (- 50) - of_int (7 :: int)\<bar> < 1"
    by (simp only: double_mult_10_seven_tenths)
  have g: "generate (Scale (Finite 6305039478318694 (- 53)) drawCounter) p = (Inr 7, 1, None)"
    using th [THEN conjunct1]
    by (simp only: prod double_mult_10_seven_tenths) (simp add: drawCounter_def p_def params0_def)
  have bl: "bit_length \<bar>param_Size p7 * 1\<bar> \<le> 53"
    "bit_length \<bar>param_Size p7 * 1\<bar> + - 2 \<le> 1024"
    unfolding sz7 by code_simp+
  have ne: "param_Size p7 * 1 \<noteq> 0" and ex: "- 1074 \<le> (- 2 :: int)"
    by (simp_all add: sz7)
  have "\<exists>m e. double_mult (int_to_double (param_Size p7)) (Finite 1 (- 2)) = Finite m e \<and>
          double_value m e = of_int (param_Size p7) * double_value 1 (- 2)"
    by (rule th7 [THEN conjunct2, THEN conjunct2, THEN conjunct2, rule_format,
          OF conjI [OF refl conjI [OF ne conjI [OF bl(1) conjI [OF ex bl(2)]]]]])
  then have e: "\<exists>m e. double_mult (int_to_double 7) (Finite 1 (- 2)) = Finite m e \<and>
      double_value m e = 7 * double_value 1 (- 2)"
    by (simp add: sz7)
  from g v d e show ?thesis
    by (simp only: p_def)
qed

subsection \<open>Character\<close>

lemma Character_shrink_cases:
  "Character_shrink CHR ''a'' = []"
  "Character_shrink CHR ''b'' = ''a''"
  "Character_shrink CHR ''c'' = ''ab''"
  "Character_shrink CHR ''A'' = ''abc''"
  "Character_shrink CHR ''B'' = ''abcA''"
  "Character_shrink CHR ''C'' = ''abcAB''"
  "Character_shrink CHR ''1'' = ''abcABC''"
  "Character_shrink CHR ''2'' = ''abcABC1''"
  "Character_shrink CHR ''3'' = ''abcABC12''"
  by (simp_all add: Character_shrink_def Character_switch_def switch_entry_def shrink_constant_def)

lemma Character_shrink_default:
  "v \<notin> set canonical \<Longrightarrow> Character_shrink v = ''abcABC123''"
  by (auto simp: Character_shrink_def Character_switch_def switch_entry_def shrink_constant_def canonical_def)

lemma canonical_filter_cases:
  "filter (\<lambda>c. canonical_index c < canonical_index CHR ''a'') canonical = []"
  "filter (\<lambda>c. canonical_index c < canonical_index CHR ''b'') canonical = ''a''"
  "filter (\<lambda>c. canonical_index c < canonical_index CHR ''c'') canonical = ''ab''"
  "filter (\<lambda>c. canonical_index c < canonical_index CHR ''A'') canonical = ''abc''"
  "filter (\<lambda>c. canonical_index c < canonical_index CHR ''B'') canonical = ''abcA''"
  "filter (\<lambda>c. canonical_index c < canonical_index CHR ''C'') canonical = ''abcAB''"
  "filter (\<lambda>c. canonical_index c < canonical_index CHR ''1'') canonical = ''abcABC''"
  "filter (\<lambda>c. canonical_index c < canonical_index CHR ''2'') canonical = ''abcABC1''"
  "filter (\<lambda>c. canonical_index c < canonical_index CHR ''3'') canonical = ''abcABC12''"
  by (simp_all add: canonical_index_def canonical_def)

lemma canonical_filter_default:
  "v \<notin> set canonical \<Longrightarrow> filter (\<lambda>c. canonical_index c < canonical_index v) canonical = canonical"
  by (auto simp: canonical_index_def canonical_def)

text \<open>
  C8. For every value v, \<open>character<char>().shrink(v)\<close> yields exactly the characters
  of the canonical list a, b, c, A, B, C, 1, 2, 3 that come before v in that list, in the
  order of the list; nothing for v = a; all nine for a v that is not in the list.
\<close>

theorem Character_shrink_canonical:
  "Character_shrink v = filter (\<lambda>c. canonical_index c < canonical_index v) canonical \<and>
   Character_shrink CHR ''a'' = [] \<and>
   (v \<notin> set canonical \<longrightarrow> Character_shrink v = canonical)"
proof -
  consider "v = CHR ''a''" | "v = CHR ''b''" | "v = CHR ''c''" | "v = CHR ''A''"
    | "v = CHR ''B''" | "v = CHR ''C''" | "v = CHR ''1''" | "v = CHR ''2''"
    | "v = CHR ''3''" | "v \<notin> set canonical"
    by (auto simp: canonical_def)
  then have "Character_shrink v = filter (\<lambda>c. canonical_index c < canonical_index v) canonical"
    by cases (simp_all add: Character_shrink_cases canonical_filter_cases
        Character_shrink_default canonical_filter_default, simp add: canonical_def)
  moreover have "v \<notin> set canonical \<longrightarrow> Character_shrink v = canonical"
    by (simp add: Character_shrink_default canonical_def)
  ultimately show ?thesis
    by (simp add: Character_shrink_cases)
qed

theorem Character_shrink_canonical_witness:
  "CHR ''z'' \<notin> set canonical \<and> Character_shrink CHR ''z'' = ''abcABC123'' \<and>
   Character_shrink CHR ''B'' = ''abcA''"
proof -
  have z: "CHR ''z'' \<notin> set canonical"
    by (simp add: canonical_def)
  have "Character_shrink CHR ''z'' = canonical"
    using Character_shrink_canonical [of "CHR ''z''"] z by blast
  then have "Character_shrink CHR ''z'' = ''abcABC123''"
    by (simp add: canonical_def)
  moreover have "Character_shrink CHR ''B'' =
      filter (\<lambda>c. canonical_index c < canonical_index CHR ''B'') canonical"
    using Character_shrink_canonical [of "CHR ''B''"] by blast
  then have "Character_shrink CHR ''B'' = ''abcA''"
    by (simp add: canonical_def canonical_index_def)
  ultimately show ?thesis using z by simp
qed

subsection \<open>TupleOf and PairOf\<close>

lemma concat_map_upt_Suc:
  "concat (map F [0..<Suc n]) = F 0 @ concat (map (\<lambda>i. F (Suc i)) [0..<n])"
proof -
  have "[0..<Suc n] = 0 # map Suc [0..<n]"
    by (simp add: upt_conv_Cons map_Suc_upt del: upt_Suc)
  then show ?thesis
    by (simp add: comp_def del: upt_Suc)
qed

lemma shrink_eachElement_Cons:
  "shrink_eachElement (x # xs) per =
     map (\<lambda>y. y # xs) (per x) @ map ((#) x) (shrink_eachElement xs per)"
  by (simp add: shrink_eachElement_def concat_map_upt_Suc map_concat comp_def del: upt_Suc)

lemma TupleOf_shrink_by_index:
  assumes "length t = length gs" and "\<forall>cg \<in> set gs. fst cg"
  shows "TupleOf_shrink gs t =
         concat (map (\<lambda>i. map (\<lambda>y. t[i := y]) (shrink (snd (gs ! i)) (t ! i))) [0..<length gs])"
  using assms
proof (induction gs arbitrary: t)
  case Nil
  then show ?case
    by (simp add: Generator_shrink_def shrink_nothing_def)
next
  case (Cons cg gs)
  obtain c g where cg: "cg = (c, g)" by (cases cg)
  from Cons.prems obtain x xs where t: "t = x # xs" and len: "length xs = length gs"
    by (cases t) auto
  from Cons.prems cg have c: "c" and rest: "\<forall>cg \<in> set gs. fst cg"
    by auto
  have ih: "TupleOf_shrink gs xs =
      concat (map (\<lambda>i. map (\<lambda>y. xs[i := y]) (shrink (snd (gs ! i)) (xs ! i))) [0..<length gs])"
    using Cons.IH [OF len rest] .
  show ?case
    unfolding cg t
    by (simp add: c ih shrink_sequentially_def shrink_map_def concat_map_upt_Suc
        map_concat comp_def del: upt_Suc)
qed

lemma PairOf_shrink_components:
  "PairOf_shrink True True g1 g2 (a, b) =
     map (\<lambda>x. (x, b)) (shrink g1 a) @ map (\<lambda>y. (a, y)) (shrink g2 b)"
  by (simp add: PairOf_shrink_def shrink_sequentially_def shrink_map_def Generator_shrink_def
      shrink_nothing_def comp_def)

text \<open>
  C6. For a copy-constructible tuple type, the shrink of \<open>tupleOf(g1, ..., gN)\<close> at a tuple
  t yields its candidates grouped by component index in increasing order: for index i, one
  candidate for each value of \<open>gi.shrink(ti)\<close>, in that order, which is t with component i
  replaced by that value and the other components unchanged; the candidates of index i all
  come before those of index i + 1. \<open>pairOf\<close> is the case of two components.
\<close>

theorem TupleOf_shrink_grouped_by_index:
  assumes "length t = length gs" and "\<forall>cg \<in> set gs. fst cg"
  shows "TupleOf_shrink gs t =
           concat (map (\<lambda>i. map (\<lambda>y. t[i := y]) (shrink (snd (gs ! i)) (t ! i)))
             [0..<length gs]) \<and>
         PairOf_shrink True True g1 g2 (a, b) =
           map (\<lambda>x. (x, b)) (shrink g1 a) @ map (\<lambda>y. (a, y)) (shrink g2 b)"
  using TupleOf_shrink_by_index [OF assms] PairOf_shrink_components [of g1 g2 a b]
  by (rule conjI)

theorem TupleOf_shrink_grouped_by_index_witness:
  "TupleOf_shrink [(True, halving), (True, halving), (True, halving)] [4, 0, 6] =
     [[0, 0, 6], [2, 0, 6], [4, 0, 0], [4, 0, 3]] \<and>
   PairOf_shrink True True halving halving (4, 6) = [(0, 6), (2, 6), (4, 0), (4, 3)]"
proof -
  have len: "length [4, 0, 6 :: int] =
             length [(True, halving), (True, halving), (True, halving)]"
    by simp
  have cc: "\<forall>cg \<in> set [(True, halving), (True, halving), (True, halving)]. fst cg"
    by simp
  have up: "[0..<3] = [0, 1, 2]"
    by (simp add: upt_rec)
  show ?thesis
    using TupleOf_shrink_grouped_by_index [OF len cc, of halving halving 4 6]
    by (simp add: up halving_def drawCounter_def)
qed

subsection \<open>Collection: shrink\<close>

text \<open>
  C5. For a copy-constructible container type, the shrink of \<open>collection(g)\<close> at v is
  \<open>sequentially(removeChunks(v), eachElement(v, g.shrink))\<close>: the candidates of
  \<open>removeChunks(v)\<close> first, then for each position of v in order the candidates of
  \<open>g.shrink\<close> of its element, put in its place. For \<^verbatim>\<open>std::array\<close> the shrink is the
  second part only, so that every candidate has the length of v.
\<close>

theorem Collection_shrink_sequentially:
  "shrink (Collection npS np k arb add True removeChunks g) v =
     shrink_sequentially (removeChunks v) (shrink_eachElement v (shrink g)) \<and>
   shrink (Collection npS np k arb add True removeChunks g) v =
     removeChunks v @
     concat (map (\<lambda>i. map (\<lambda>y. v[i := y]) (shrink g (v ! i))) [0..<length v]) \<and>
   Collection_array_shrink True g v =
     concat (map (\<lambda>i. map (\<lambda>y. v[i := y]) (shrink g (v ! i))) [0..<length v]) \<and>
   (\<forall>c \<in> set (Collection_array_shrink True g v). length c = length v)"
proof -
  have "\<forall>c \<in> set (Collection_array_shrink True g v). length c = length v"
    by (auto simp: Collection_array_shrink_def shrink_eachElement_def)
  then show ?thesis
    by (simp add: Collection_def Collection_shrink_def Collection_array_shrink_def
        shrink_sequentially_def)
       (simp add: shrink_eachElement_def)
qed

theorem Collection_shrink_sequentially_witness:
  "Collection_array_shrink True halving [4, 6] = [[0, 6], [2, 6], [4, 0], [4, 3]] \<and>
   [2, 6] \<in> set (Collection_array_shrink True halving [4, 6]) \<and>
   length [2, 6 :: int] = length [4, 6 :: int]"
proof -
  note th = Collection_shrink_sequentially [where npS = no_RoseNode and np = no_RoseNode
      and k = 100 and arb = engineWord and add = push_back and removeChunks = "\<lambda>xs. [[]]"
      and g = halving and v = "[4, 6]"]
  have up: "[0..<2] = [0, 1]"
    by (simp add: upt_rec)
  have "Collection_array_shrink True halving [4, 6] =
     concat (map (\<lambda>i. map (\<lambda>y. [4, 6][i := y]) (shrink halving ([4, 6] ! i)))
       [0..<length [4, 6 :: int]])"
    by (rule th [THEN conjunct2, THEN conjunct2, THEN conjunct1])
  then have eq: "Collection_array_shrink True halving [4, 6] =
     [[0, 6], [2, 6], [4, 0], [4, 3]]"
    by (simp add: up halving_def drawCounter_def)
  have all: "\<forall>c \<in> set (Collection_array_shrink True halving [4, 6]).
             length c = length [4, 6 :: int]"
    by (rule th [THEN conjunct2, THEN conjunct2, THEN conjunct2])
  have mem: "[2, 6] \<in> set (Collection_array_shrink True halving [4, 6])"
    by (simp add: eq)
  from all mem have "length [2, 6 :: int] = length [4, 6 :: int]"
    by blast
  with eq mem show ?thesis
    by blast
qed

subsection \<open>Types that cannot be copied\<close>

text \<open>
  C10. When the container or tuple type is not copy-constructible, the shrink of
  \<open>vector(n, g)\<close>, of \<open>collection(g)\<close> (the \<^verbatim>\<open>std::array\<close> specialization included) and of
  \<open>tupleOf(g1, ..., gN)\<close> is the empty iterator at every value, whatever the shrinks of
  the element generators are.
\<close>

theorem not_copy_constructible_shrink_nothing:
  assumes "\<not> IsCopyConstructible"
  shows "Vector_shrink IsCopyConstructible g v = [] \<and>
         shrink (Collection npS np k arb add IsCopyConstructible removeChunks g) v = [] \<and>
         Collection_array_shrink IsCopyConstructible g v = [] \<and>
         TupleOf_shrink ((IsCopyConstructible, g) # gs) t = []"
  using assms
  by (simp add: Vector_shrink_def Collection_def Collection_shrink_def
      Collection_array_shrink_def shrink_nothing_def)

theorem not_copy_constructible_shrink_nothing_witness:
  "shrink halving 4 = [0, 2] \<and>
   Vector_shrink False halving [4, 6] = [] \<and>
   shrink (Collection no_RoseNode no_RoseNode 100 engineWord push_back False (\<lambda>xs. [[]])
      halving) [4, 6] = [] \<and>
   Collection_array_shrink False halving [4, 6] = [] \<and>
   TupleOf_shrink [(False, halving), (True, halving)] [4, 6] = []"
proof -
  have "\<not> False" by simp
  from not_copy_constructible_shrink_nothing [OF this, where g = halving and v = "[4, 6]"
      and npS = no_RoseNode and np = no_RoseNode and k = 100 and arb = engineWord
      and add = push_back and removeChunks = "\<lambda>xs. [[]]" and gs = "[(True, halving)]"
      and t = "[4, 6]"]
  show ?thesis
    by (simp add: halving_def)
qed

subsection \<open>Collection: generate\<close>

lemma Collection_loop_Suc:
  "Collection_loop np add g p (Suc n) (Collection_pointees np g p st1 j) c =
     (case Collection_element np g p st1 j of
        (Inl e, st') \<Rightarrow> (Inl e, st')
      | (Inr x, st') \<Rightarrow>
          Collection_loop np add g p n (Collection_pointees np g p st1 (Suc j))
            (snd (add c x)))"
  by (simp add: Collection_element_def split: prod.splits sum.splits)

lemma Collection_loop_result:
  assumes "Collection_loop np add g p n (Collection_pointees np g p st1 j) c = (Inr c', st')"
  shows "\<exists>xs. length xs = n \<and>
           (\<forall>i<n. fst (Collection_element np g p st1 (j + i)) = Inr (xs ! i)) \<and>
           c' = foldl (\<lambda>c x. snd (add c x)) c xs \<and>
           st' = Collection_pointees np g p st1 (j + n)"
  using assms
proof (induction n arbitrary: j c)
  case 0
  then show ?case by simp
next
  case (Suc n)
  from Suc.prems obtain x where x: "fst (Collection_element np g p st1 j) = Inr x"
    and rest: "Collection_loop np add g p n (Collection_pointees np g p st1 (Suc j))
                 (snd (add c x)) = (Inr c', st')"
    unfolding Collection_loop_Suc by (auto split: prod.splits sum.splits)
  from Suc.IH [OF rest] obtain xs where xs: "length xs = n"
    "\<forall>i<n. fst (Collection_element np g p st1 (Suc j + i)) = Inr (xs ! i)"
    "c' = foldl (\<lambda>c x. snd (add c x)) (snd (add c x)) xs"
    "st' = Collection_pointees np g p st1 (Suc j + n)"
    by blast
  have "\<forall>i<Suc n. fst (Collection_element np g p st1 (j + i)) = Inr ((x # xs) ! i)"
  proof (intro allI impI)
    fix i assume "i < Suc n"
    then show "fst (Collection_element np g p st1 (j + i)) = Inr ((x # xs) ! i)"
      using x xs(2) by (cases i) simp_all
  qed
  with xs show ?case
    by (intro exI [of _ "x # xs"]) simp
qed

lemma Collection_loop_returns:
  assumes "\<forall>i<n. \<exists>x. fst (Collection_element np g p st1 (j + i)) = Inr x"
  shows "\<exists>c'. Collection_loop np add g p n (Collection_pointees np g p st1 j) c =
           (Inr c', Collection_pointees np g p st1 (j + n))"
  using assms
proof (induction n arbitrary: j c)
  case 0
  then show ?case by simp
next
  case (Suc n)
  from Suc.prems obtain x where x: "fst (Collection_element np g p st1 j) = Inr x"
    by force
  have "\<forall>i<n. \<exists>x. fst (Collection_element np g p st1 (Suc j + i)) = Inr x"
    using Suc.prems by (metis Suc_less_eq add_Suc_right add_Suc)
  from Suc.IH [OF this, of "snd (add c x)"] x show ?case
    unfolding Collection_loop_Suc by (auto split: prod.splits sum.splits)
qed

lemma Collection_upper:
  assumes "0 \<le> s" and "s < 2 ^ 31 - 1"
  shows "(of_int (int_wrap (s + 1)) :: SizeT) = of_int (s + 1)"
    and "uint (of_int (s + 1) :: SizeT) = s + 1"
proof -
  show "(of_int (int_wrap (s + 1)) :: SizeT) = of_int (s + 1)"
    using assms by (simp only: int_wrap_id)
  have "uint (of_int (s + 1) :: SizeT) = (s + 1) mod 2 ^ 64"
    by (simp only: uint_word_of_int) simp
  also have "\<dots> = s + 1"
    using assms by simp
  finally show "uint (of_int (s + 1) :: SizeT) = s + 1" .
qed

lemma Collection_iterations_small:
  assumes "int (unat n) \<le> s" and "s < 2 ^ 31 - 1"
  shows "Collection_iterations n = unat n"
proof -
  from assms have "int (unat n) \<le> 2 ^ 31" by linarith
  then have "unat n \<le> 2 ^ 31"
    by (metis of_nat_le_iff of_nat_numeral of_nat_power)
  then show ?thesis
    by (simp add: Collection_iterations_def)
qed

lemma Ranged_length:
  assumes "0 \<le> s" and "s < 2 ^ 31 - 1"
    and "pick npS (NoShrink (Resize k arb)) p' = (Inr u, st)"
  shows "generate (Ranged npS False k arb 0 (of_int (s + 1))) p' =
           (Inr (u mod of_int (s + 1)), st)"
    and "uint (u mod of_int (s + 1) :: SizeT) = uint u mod (s + 1)"
    and "int (unat (u mod of_int (s + 1) :: SizeT)) \<le> s"
proof -
  define hi :: SizeT where "hi = of_int (s + 1)"
  have h: "uint hi = s + 1"
    unfolding hi_def using assms(1,2) by (rule Collection_upper)
  then have "uint hi \<noteq> uint (0 :: SizeT)"
    using assms by simp
  then have ne: "hi \<noteq> 0"
    by auto
  have lt: "T_value False (0 :: SizeT) < T_value False hi"
    using assms by (simp add: T_value_def h)
  have "generate (Ranged npS False k arb 0 hi) p' = (Inr (u mod hi), st)"
    using lt ne assms(3) by (simp add: Ranged_def Ranged_generate_def)
  then show "generate (Ranged npS False k arb 0 (of_int (s + 1))) p' =
           (Inr (u mod of_int (s + 1)), st)"
    unfolding hi_def .
  have m: "uint (u mod hi) = uint u mod (s + 1)"
    by (simp add: uint_mod_distrib h)
  then show "uint (u mod of_int (s + 1) :: SizeT) = uint u mod (s + 1)"
    unfolding hi_def .
  have "uint u mod (s + 1) < s + 1"
    by (rule pos_mod_bound) (use assms(1) in linarith)
  with m have "uint (u mod hi) \<le> s"
    by simp
  then show "int (unat (u mod of_int (s + 1) :: SizeT)) \<le> s"
    unfolding hi_def by simp
qed

lemma Collection_size_top:
  assumes "0 \<le> param_Size p" and "param_Size p < 2 ^ 31 - 1"
    and "param_CurrentNode p = None"
  shows "Collection_size npS k arb p =
     (case pick npS (NoShrink (Resize k arb)) p of
        (Inl e, st') \<Rightarrow> (Inl e, st')
      | (Inr u, st') \<Rightarrow> (Inr (u mod of_int (param_Size p + 1)), st'))"
proof (cases "pick npS (NoShrink (Resize k arb)) p")
  case (fields r e n)
  define hi :: SizeT where "hi = of_int (param_Size p + 1)"
  have sz: "Collection_size npS k arb p = generate (Ranged npS False k arb 0 hi) p"
    unfolding Collection_size_def Collection_upper(1) [OF assms(1,2)] hi_def
    using assms(3) by (rule pick_top)
  show ?thesis
  proof (cases r)
    case (Inl err)
    have h: "uint hi = param_Size p + 1"
      unfolding hi_def using assms(1,2) by (rule Collection_upper)
    then have "uint hi \<noteq> uint (0 :: SizeT)"
      using assms by simp
    then have ne: "hi \<noteq> 0"
      by auto
    have lt: "T_value False (0 :: SizeT) < T_value False hi"
      using assms by (simp add: T_value_def h)
    show ?thesis
      using lt ne by (simp add: sz fields Inl Ranged_def Ranged_generate_def)
  next
    case (Inr u)
    with fields have "pick npS (NoShrink (Resize k arb)) p = (Inr u, e, n)"
      by simp
    from Ranged_length(1) [OF assms(1,2) this] show ?thesis
      by (simp add: sz fields Inr hi_def)
  qed
qed

lemma Collection_size_top_bound:
  assumes "0 \<le> param_Size p" and "param_Size p < 2 ^ 31 - 1"
    and "param_CurrentNode p = None"
    and "Collection_size npS k arb p = (Inr n, st)"
  shows "\<exists>u. pick npS (NoShrink (Resize k arb)) p = (Inr u, st) \<and>
             n = u mod of_int (param_Size p + 1)"
    and "int (unat n) \<le> param_Size p"
proof -
  from assms(4) obtain u where u: "pick npS (NoShrink (Resize k arb)) p = (Inr u, st)"
    and n: "n = u mod of_int (param_Size p + 1)"
    unfolding Collection_size_top [OF assms(1-3)]
    by (auto split: prod.splits sum.splits)
  then show "\<exists>u. pick npS (NoShrink (Resize k arb)) p = (Inr u, st) \<and>
             n = u mod of_int (param_Size p + 1)"
    by blast
  show "int (unat n) \<le> param_Size p"
    unfolding n using assms(1,2) u by (rule Ranged_length(3))
qed

lemma Collection_generate_empty:
  assumes "0 \<le> param_Size p" and "param_Size p < 2 ^ 31 - 1"
    and "param_CurrentNode p = None"
    and "pick npS (NoShrink (Resize k arb)) p = (Inr u, st)"
    and "uint u mod (param_Size p + 1) = 0"
  shows "generate (Collection npS np k arb add cc rc g) p = (Inr [], st)"
proof -
  have "uint (u mod of_int (param_Size p + 1) :: SizeT) = 0"
    using Ranged_length(2) [OF assms(1,2,4)] assms(5) by simp
  then have z: "u mod of_int (param_Size p + 1) = (0 :: SizeT)"
    by (simp only: uint_0_iff)
  have "Collection_size npS k arb p = (Inr (u mod of_int (param_Size p + 1)), st)"
    unfolding Collection_size_top [OF assms(1-3)] assms(4) by (simp only: prod.case sum.case)
  then have "Collection_size npS k arb p = (Inr 0, st)"
    by (simp only: z)
  then show ?thesis
    by (simp add: Collection_def Collection_generate_def Collection_iterations_def)
qed

text \<open>
  C4, as the claim states it: the length is drawn in the closed interval from 0 to s + 1.
  This fails at the upper end: in top-level sampling at size 0 the length 1 is never drawn,
  whatever \<^verbatim>\<open>arbitrary<SizeT>\<close> and the engine are.
\<close>

theorem Collection_length_size_plus_1_counterexample:
  "\<not> (\<exists>(arb :: (nat, unit, SizeT) Generator) k engine st.
        Collection_size no_RoseNode k arb (params0\<lparr>param_RandomEngine := engine\<rparr>) =
          (Inr 1, st))"
proof
  assume "\<exists>(arb :: (nat, unit, SizeT) Generator) k engine st.
        Collection_size no_RoseNode k arb (params0\<lparr>param_RandomEngine := engine\<rparr>) =
          (Inr 1, st)"
  then obtain arb :: "(nat, unit, SizeT) Generator" and k engine st
    where "Collection_size no_RoseNode k arb (params0\<lparr>param_RandomEngine := engine\<rparr>) =
             (Inr 1, st)"
    by blast
  then have "int (unat (1 :: SizeT)) \<le> param_Size (params0\<lparr>param_RandomEngine := engine\<rparr>)"
    by (intro Collection_size_top_bound(2)) (simp_all add: params0_def)
  then show False
    by (simp add: params0_def)
qed

text \<open>
  C4, amended. At a size s from 0 up (and below the largest \<^verbatim>\<open>int\<close>), \<open>collection(g)\<close>
  first picks a length from \<open>ranged<SizeT>(0, s + 1)\<close>, whose \<^verbatim>\<open>generate\<close> returns the word
  picked from \<^verbatim>\<open>arbitrary<SizeT>\<close> modulo s + 1, a number of the half-open interval from 0 to
  s + 1, so at most s; in top-level sampling that is the length. It then picks exactly that
  many elements from \<open>noShrink(g)\<close> in the context of the caller and hands them to the
  builder in order; it returns a collection whenever the picks return. The empty collection
  is reachable: in top-level sampling it is the result whenever the word drawn for the
  length is a multiple of s + 1, and so always at size 0.
\<close>

theorem Collection_generate_length:
  assumes "0 \<le> param_Size p" and "param_Size p < 2 ^ 31 - 1"
  shows "Collection_size npS k arb p =
           pick npS (Ranged npS False k arb 0 (of_int (param_Size p + 1))) p \<and>
         (\<forall>p' u st. pick npS (NoShrink (Resize k arb)) p' = (Inr u, st) \<longrightarrow>
            generate (Ranged npS False k arb 0 (of_int (param_Size p + 1))) p' =
              (Inr (u mod of_int (param_Size p + 1)), st) \<and>
            uint (u mod of_int (param_Size p + 1) :: SizeT) = uint u mod (param_Size p + 1) \<and>
            int (unat (u mod of_int (param_Size p + 1) :: SizeT)) \<le> param_Size p) \<and>
         (param_CurrentNode p = None \<longrightarrow>
            (\<forall>u st. pick npS (NoShrink (Resize k arb)) p = (Inr u, st) \<longrightarrow>
               Collection_size npS k arb p = (Inr (u mod of_int (param_Size p + 1)), st))) \<and>
         (param_CurrentNode p = None \<longrightarrow>
            (\<forall>n st. Collection_size npS k arb p = (Inr n, st) \<longrightarrow>
               (\<exists>u. pick npS (NoShrink (Resize k arb)) p = (Inr u, st) \<and>
                    n = u mod of_int (param_Size p + 1)) \<and>
               int (unat n) \<le> param_Size p)) \<and>
         (\<forall>n st1 c st'. Collection_size npS k arb p = (Inr n, st1) \<and>
               int (unat n) \<le> param_Size p \<and>
               generate (Collection npS np k arb add cc rc g) p = (Inr c, st') \<longrightarrow>
            (\<exists>xs. length xs = unat n \<and>
               (\<forall>i<unat n. fst (Collection_element np g p st1 i) = Inr (xs ! i)) \<and>
               c = foldl (\<lambda>c x. snd (add c x)) [] xs \<and>
               st' = Collection_pointees np g p st1 (unat n))) \<and>
         (\<forall>n st1. Collection_size npS k arb p = (Inr n, st1) \<and>
               int (unat n) \<le> param_Size p \<and>
               (\<forall>i<unat n. \<exists>x. fst (Collection_element np g p st1 i) = Inr x) \<longrightarrow>
            (\<exists>c. generate (Collection npS np k arb add cc rc g) p =
               (Inr c, Collection_pointees np g p st1 (unat n)))) \<and>
         (param_CurrentNode p = None \<longrightarrow>
            (\<forall>u st. pick npS (NoShrink (Resize k arb)) p = (Inr u, st) \<and>
                 uint u mod (param_Size p + 1) = 0 \<longrightarrow>
               generate (Collection npS np k arb add cc rc g) p = (Inr [], st)))"
proof -
  have c1: "Collection_size npS k arb p =
           pick npS (Ranged npS False k arb 0 (of_int (param_Size p + 1))) p"
    unfolding Collection_size_def Collection_upper(1) [OF assms] ..
  have c2: "\<forall>p' u st. pick npS (NoShrink (Resize k arb)) p' = (Inr u, st) \<longrightarrow>
            generate (Ranged npS False k arb 0 (of_int (param_Size p + 1))) p' =
              (Inr (u mod of_int (param_Size p + 1)), st) \<and>
            uint (u mod of_int (param_Size p + 1) :: SizeT) = uint u mod (param_Size p + 1) \<and>
            int (unat (u mod of_int (param_Size p + 1) :: SizeT)) \<le> param_Size p"
    using Ranged_length [OF assms] by blast
  have c3: "param_CurrentNode p = None \<longrightarrow>
            (\<forall>u st. pick npS (NoShrink (Resize k arb)) p = (Inr u, st) \<longrightarrow>
               Collection_size npS k arb p = (Inr (u mod of_int (param_Size p + 1)), st))"
  proof (intro impI allI)
    fix u st
    assume top: "param_CurrentNode p = None"
      and u: "pick npS (NoShrink (Resize k arb)) p = (Inr u, st)"
    show "Collection_size npS k arb p = (Inr (u mod of_int (param_Size p + 1)), st)"
      unfolding Collection_size_top [OF assms top] u by (simp only: prod.case sum.case)
  qed
  have c4: "param_CurrentNode p = None \<longrightarrow>
            (\<forall>n st. Collection_size npS k arb p = (Inr n, st) \<longrightarrow>
               (\<exists>u. pick npS (NoShrink (Resize k arb)) p = (Inr u, st) \<and>
                    n = u mod of_int (param_Size p + 1)) \<and>
               int (unat n) \<le> param_Size p)"
    using Collection_size_top_bound [OF assms] by blast
  have c5: "\<forall>n st1 c st'. Collection_size npS k arb p = (Inr n, st1) \<and>
               int (unat n) \<le> param_Size p \<and>
               generate (Collection npS np k arb add cc rc g) p = (Inr c, st') \<longrightarrow>
            (\<exists>xs. length xs = unat n \<and>
               (\<forall>i<unat n. fst (Collection_element np g p st1 i) = Inr (xs ! i)) \<and>
               c = foldl (\<lambda>c x. snd (add c x)) [] xs \<and>
               st' = Collection_pointees np g p st1 (unat n))"
  proof (intro allI impI, elim conjE)
    fix n st1 c st'
    assume sz: "Collection_size npS k arb p = (Inr n, st1)"
      and n: "int (unat n) \<le> param_Size p"
      and gen: "generate (Collection npS np k arb add cc rc g) p = (Inr c, st')"
    have it: "Collection_iterations n = unat n"
      using n assms(2) by (rule Collection_iterations_small)
    from gen have "Collection_loop np add g p (unat n) (Collection_pointees np g p st1 0) [] =
        (Inr c, st')"
      by (simp add: Collection_def Collection_generate_def sz it)
    from Collection_loop_result [OF this]
    show "\<exists>xs. length xs = unat n \<and>
               (\<forall>i<unat n. fst (Collection_element np g p st1 i) = Inr (xs ! i)) \<and>
               c = foldl (\<lambda>c x. snd (add c x)) [] xs \<and>
               st' = Collection_pointees np g p st1 (unat n)"
      by auto
  qed
  have c6: "\<forall>n st1. Collection_size npS k arb p = (Inr n, st1) \<and>
               int (unat n) \<le> param_Size p \<and>
               (\<forall>i<unat n. \<exists>x. fst (Collection_element np g p st1 i) = Inr x) \<longrightarrow>
            (\<exists>c. generate (Collection npS np k arb add cc rc g) p =
               (Inr c, Collection_pointees np g p st1 (unat n)))"
  proof (intro allI impI, elim conjE)
    fix n st1
    assume sz: "Collection_size npS k arb p = (Inr n, st1)"
      and n: "int (unat n) \<le> param_Size p"
      and "\<forall>i<unat n. \<exists>x. fst (Collection_element np g p st1 i) = Inr x"
    then have "\<forall>i<unat n. \<exists>x. fst (Collection_element np g p st1 (0 + i)) = Inr x"
      by simp
    from Collection_loop_returns [OF this, of add "[]"]
    show "\<exists>c. generate (Collection npS np k arb add cc rc g) p =
               (Inr c, Collection_pointees np g p st1 (unat n))"
      by (simp add: Collection_def Collection_generate_def sz
          Collection_iterations_small [OF n assms(2)])
  qed
  have c7: "param_CurrentNode p = None \<longrightarrow>
            (\<forall>u st. pick npS (NoShrink (Resize k arb)) p = (Inr u, st) \<and>
                 uint u mod (param_Size p + 1) = 0 \<longrightarrow>
               generate (Collection npS np k arb add cc rc g) p = (Inr [], st))"
    by (auto intro: Collection_generate_empty [OF assms])
  from c1 c2 c3 c4 c5 c6 c7 show ?thesis
    by (intro conjI)
qed

theorem Collection_generate_length_witness:
  "Collection_size no_RoseNode 100 engineWord
     \<lparr>param_Size = 3, param_NoShrink = False, param_RandomEngine = 6,
      param_CurrentNode = None\<rparr> = (Inr 2, 7, None) \<and>
   int (unat (2 :: SizeT)) \<le> 3 \<and>
   generate (Collection no_RoseNode no_RoseNode 100 engineWord push_back True (\<lambda>xs. [[]])
       (engineWord :: (nat, unit, 32 word) Generator))
     \<lparr>param_Size = 3, param_NoShrink = False, param_RandomEngine = 6,
      param_CurrentNode = None\<rparr> = (Inr [7, 8], 9, None) \<and>
   generate (Collection no_RoseNode no_RoseNode 100 engineWord push_back True (\<lambda>xs. [[]])
       (engineWord :: (nat, unit, 32 word) Generator))
     (params0\<lparr>param_RandomEngine := 5\<rparr>) = (Inr [], 6, None)"
proof -
  define p3 :: "(nat, unit) GenerationParams"
    where "p3 = \<lparr>param_Size = 3, param_NoShrink = False, param_RandomEngine = 6,
                  param_CurrentNode = None\<rparr>"
  define p0 :: "(nat, unit) GenerationParams"
    where "p0 = params0\<lparr>param_RandomEngine := 5\<rparr>"
  define g :: "(nat, unit, 32 word) Generator" where "g = engineWord"
  have s3: "0 \<le> param_Size p3" "param_Size p3 < 2 ^ 31 - 1"
    by (simp_all add: p3_def)
  have s0: "0 \<le> param_Size p0" "param_Size p0 < 2 ^ 31 - 1"
    by (simp_all add: p0_def params0_def)
  have top3: "param_CurrentNode p3 = None" and top0: "param_CurrentNode p0 = None"
    by (simp_all add: p3_def p0_def params0_def)
  note th3 = Collection_generate_length [OF s3, of no_RoseNode 100 engineWord no_RoseNode
      push_back True "\<lambda>xs. [[]]" g]
  note th0 = Collection_generate_length [OF s0, of no_RoseNode 100 engineWord no_RoseNode
      push_back True "\<lambda>xs. [[]]" g]
  have pk3: "pick no_RoseNode (NoShrink (Resize 100 (engineWord :: (nat, unit, SizeT) Generator)))
               p3 = (Inr 6, 7, None)"
    by (simp add: pick_top generate_NoShrink_Resize engineWord_def p3_def)
  have "Collection_size no_RoseNode 100 engineWord p3 =
          (Inr (6 mod of_int (param_Size p3 + 1)), 7, None)"
    by (rule th3 [THEN conjunct2, THEN conjunct2, THEN conjunct1, rule_format, OF top3 pk3])
  then have sz: "Collection_size no_RoseNode 100 engineWord p3 = (Inr 2, 7, None)"
    by (simp add: p3_def)
  have bound: "int (unat (2 :: SizeT)) \<le> param_Size p3"
    by (rule th3 [THEN conjunct2, THEN conjunct2, THEN conjunct2, THEN conjunct1,
          rule_format, OF top3 sz, THEN conjunct2])
  have gen: "generate (Collection no_RoseNode no_RoseNode 100 engineWord push_back True
               (\<lambda>xs. [[]]) g) p3 = (Inr [7, 8], 9, None)"
  proof -
    have "Collection_loop no_RoseNode push_back g p3 2 (7, None) [] = (Inr [7, 8], 9, None)"
      unfolding numeral_2_eq_2
      by (simp add: pick_top NoShrink_def NoShrink_generate_def push_back_def g_def
          engineWord_def p3_def)
    then show ?thesis
      by (simp add: Collection_def Collection_generate_def sz Collection_iterations_def)
  qed
  have pk: "pick no_RoseNode (NoShrink (Resize 100 (engineWord :: (nat, unit, SizeT) Generator)))
              p0 = (Inr 5, 6, None)"
    by (simp add: pick_top generate_NoShrink_Resize engineWord_def p0_def params0_def)
  have m0: "uint (5 :: SizeT) mod (param_Size p0 + 1) = 0"
    by (simp add: p0_def params0_def)
  have empty: "generate (Collection no_RoseNode no_RoseNode 100 engineWord push_back True
                 (\<lambda>xs. [[]]) g) p0 = (Inr [], 6, None)"
    by (rule th0 [THEN conjunct2, THEN conjunct2, THEN conjunct2, THEN conjunct2,
          THEN conjunct2, THEN conjunct2, rule_format, OF top0 conjI [OF pk m0]])
  from sz bound gen empty show ?thesis
    by (simp add: p3_def p0_def g_def)
qed

end
